theory Spec2Isabelle
  imports Main "HOL-Library.Word" "HOL-Library.Multiset" "HOL-Library.Product_Lexorder"
begin

text \<open>
  A shallow embedding of the workspace edit application engine of typescript-mcp
  (\<^verbatim>\<open>internal/tools/rename.go\<close>): the position mapper \<^verbatim>\<open>utf16ColToByteOffset\<close>,
  the line utilities \<^verbatim>\<open>splitLines\<close> and \<^verbatim>\<open>lineOffset\<close>, the edit applier
  \<^verbatim>\<open>applyFileEdits\<close> and the transaction \<^verbatim>\<open>applyWorkspaceEdit\<close>.
\<close>

unbundle bit_operations_syntax

section \<open>Bytes, runes and UTF-8 decoding\<close>

text \<open>
  File content is a Go \<^verbatim>\<open>[]byte\<close> and a line is a Go \<^verbatim>\<open>string\<close>: both are
  sequences of 8-bit bytes. A rune is Go's \<^verbatim>\<open>int32\<close>; the decoder only yields values
  from 0 to 0x1FFFFF, where signed and unsigned comparison agree.
\<close>

type_synonym byte = "8 word"

type_synonym bytes = "byte list"

type_synonym rune = "32 word"

text \<open>
  \<^verbatim>\<open>utf8.DecodeRuneInString\<close> belongs to Go's standard library
  (package \<^verbatim>\<open>unicode/utf8\<close>), which \<^verbatim>\<open>utf16ColToByteOffset\<close> calls. The model
  follows the library's implementation: the table \<open>first\<close> classifies the leading byte
  (0xF0 marks ASCII, 0xF1 an invalid leading byte, otherwise the low three bits hold the
  length of the encoding and the high nibble selects the range accepted for the second
  byte); an invalid or truncated encoding decodes as \<open>RuneError\<close> with width 1.
\<close>

definition RuneError :: rune where
  "RuneError = 0xFFFD"

record acceptRange =
  lo :: byte
  hi :: byte

definition first :: "byte \<Rightarrow> byte" where
  "first b =
     (if b < 0x80 then 0xF0
      else if b < 0xC2 then 0xF1
      else if b < 0xE0 then 0x02
      else if b = 0xE0 then 0x13
      else if b < 0xED then 0x03
      else if b = 0xED then 0x23
      else if b < 0xF0 then 0x03
      else if b = 0xF0 then 0x34
      else if b < 0xF4 then 0x04
      else if b = 0xF4 then 0x44
      else 0xF1)"

definition acceptRanges :: "byte \<Rightarrow> acceptRange" where
  "acceptRanges i =
     (if i = 0 then \<lparr>lo = 0x80, hi = 0xBF\<rparr>
      else if i = 1 then \<lparr>lo = 0xA0, hi = 0xBF\<rparr>
      else if i = 2 then \<lparr>lo = 0x80, hi = 0x9F\<rparr>
      else if i = 3 then \<lparr>lo = 0x90, hi = 0xBF\<rparr>
      else if i = 4 then \<lparr>lo = 0x80, hi = 0x8F\<rparr>
      else \<lparr>lo = 0, hi = 0\<rparr>)"

definition DecodeRuneInString :: "bytes \<Rightarrow> rune \<times> nat" where
  "DecodeRuneInString s =
     (let n = length s in
      if n < 1 then (RuneError, 0)
      else
        let s0 = s ! 0; x = first s0 in
        if x \<ge> 0xF0 then (if x = 0xF1 then RuneError else ucast s0, 1)
        else
          let sz = unat (x AND 7); accept = acceptRanges (drop_bit 4 x) in
          if n < sz then (RuneError, 1)
          else
            let s1 = s ! 1 in
            if s1 < lo accept \<or> hi accept < s1 then (RuneError, 1)
            else if sz \<le> 2 then (push_bit 6 (ucast (s0 AND 0x1F)) OR ucast (s1 AND 0x3F), 2)
            else
              let s2 = s ! 2 in
              if s2 < 0x80 \<or> 0xBF < s2 then (RuneError, 1)
              else if sz \<le> 3 then
                (push_bit 12 (ucast (s0 AND 0x0F)) OR push_bit 6 (ucast (s1 AND 0x3F))
                   OR ucast (s2 AND 0x3F), 3)
              else
                let s3 = s ! 3 in
                if s3 < 0x80 \<or> 0xBF < s3 then (RuneError, 1)
                else
                  (push_bit 18 (ucast (s0 AND 0x07)) OR push_bit 12 (ucast (s1 AND 0x3F))
                     OR push_bit 6 (ucast (s2 AND 0x3F)) OR ucast (s3 AND 0x3F), 4))"

section \<open>PositionMapper: \<^verbatim>\<open>utf16ColToByteOffset\<close>\<close>

text \<open>
  The loop of \<^verbatim>\<open>utf16ColToByteOffset\<close> (rename.go). \<open>utf16Count\<close> and \<open>utf16Col\<close>
  are \<^verbatim>\<open>uint32\<close>, so the additions wrap modulo \<open>2 ^ 32\<close>; \<open>byteOff\<close> is an
  \<^verbatim>\<open>int\<close> bounded by the length of the line. The loop ends because the decoder
  consumes at least one byte of a non-empty string.
\<close>

function utf16_loop :: "bytes \<Rightarrow> 32 word \<Rightarrow> 32 word \<Rightarrow> nat \<Rightarrow> nat" where
  "utf16_loop line utf16Col utf16Count byteOff =
     (if byteOff < length line then
        (if utf16Count \<ge> utf16Col then byteOff
         else
           (case DecodeRuneInString (drop byteOff line) of
              (r, sz) \<Rightarrow>
                utf16_loop line utf16Col
                  (if r \<le> 0xFFFF then utf16Count + 1 else utf16Count + 2)
                  (byteOff + sz)))
      else byteOff)"
  by pat_completeness auto
termination
proof -
  have advance: "length line - (off + sz) < length line - off"
    if "(r, sz) = DecodeRuneInString (drop off line)" and "off < length line"
    for r :: rune and sz off :: nat and line :: bytes
  proof -
    from that(2) have "drop off line \<noteq> []" by simp
    then have "1 \<le> snd (DecodeRuneInString (drop off line))"
      by (simp add: DecodeRuneInString_def Let_def)
    with that(1) have "1 \<le> sz" by (metis snd_conv)
    with that(2) show ?thesis by simp
  qed
  show ?thesis
    by (relation "measure (\<lambda>(line, utf16Col, utf16Count, byteOff). length line - byteOff)")
      (auto dest: advance)
qed

definition utf16ColToByteOffset :: "bytes \<Rightarrow> 32 word \<Rightarrow> nat" where
  "utf16ColToByteOffset line utf16Col = utf16_loop line utf16Col 0 0"

subsection \<open>Characters, columns and boundaries of a line\<close>

text \<open>
  The decoded characters of a line, each with the width of its encoding, read from left to
  right with the same decoder. From them: the number of UTF-16 code units of a character
  (two for a rune above U+FFFF, a surrogate pair), the UTF-16 length of a byte string, the
  byte offsets at which a character starts or the line ends (\<open>rune_boundaries\<close>), and the
  UTF-16 columns of these offsets (\<open>utf16_columns\<close>).
\<close>

function runes :: "bytes \<Rightarrow> (rune \<times> nat) list" where
  "runes s =
     (if s = [] then []
      else (case DecodeRuneInString s of (r, sz) \<Rightarrow> (r, sz) # runes (drop sz s)))"
  by pat_completeness auto
termination
proof -
  have advance: "length s - sz < length s"
    if "(r, sz) = DecodeRuneInString s" and "s \<noteq> []"
    for r :: rune and sz :: nat and s :: bytes
  proof -
    from that(2) have "1 \<le> snd (DecodeRuneInString s)"
      by (simp add: DecodeRuneInString_def Let_def)
    with that(1) have "1 \<le> sz" by (metis snd_conv)
    with that(2) show ?thesis by (cases s) simp_all
  qed
  show ?thesis
    by (relation "measure length") (auto dest: advance)
qed

definition utf16_units :: "rune \<Rightarrow> nat" where
  "utf16_units r = (if r \<le> 0xFFFF then 1 else 2)"

definition utf16_length :: "bytes \<Rightarrow> nat" where
  "utf16_length s = sum_list (map (\<lambda>a. utf16_units (fst a)) (runes s))"

definition prefix_sums :: "nat list \<Rightarrow> nat list" where
  "prefix_sums xs = map (\<lambda>k. sum_list (take k xs)) [0..<Suc (length xs)]"

definition rune_boundaries :: "bytes \<Rightarrow> nat list" where
  "rune_boundaries s = prefix_sums (map snd (runes s))"

definition utf16_columns :: "bytes \<Rightarrow> nat list" where
  "utf16_columns s = prefix_sums (map (\<lambda>a. utf16_units (fst a)) (runes s))"

text \<open>
  The same loop as a recursion over the decoded characters of the rest of the line: the
  number of bytes it advances. Lemma \<open>utf16_loop_walk\<close> below relates the two.
\<close>

fun walk :: "(rune \<times> nat) list \<Rightarrow> 32 word \<Rightarrow> 32 word \<Rightarrow> nat" where
  "walk [] utf16Col utf16Count = 0"
| "walk ((r, sz) # rs) utf16Col utf16Count =
     (if utf16Count \<ge> utf16Col then 0
      else sz + walk rs utf16Col (if r \<le> 0xFFFF then utf16Count + 1 else utf16Count + 2))"

section \<open>Lines of a file\<close>

text \<open>
  \<^verbatim>\<open>strings.IndexByte\<close> (Go's standard library) gives the index of the first occurrence
  of a byte, or \<open>-1\<close>; the model returns \<open>None\<close> for \<open>-1\<close>. \<^verbatim>\<open>splitLines\<close> cuts the
  content after every line feed, so each line keeps its terminator and a content that
  ends with a line feed has an empty last line; the empty content is one empty line.
  \<^verbatim>\<open>lineOffset\<close> adds the lengths of the lines before the given one (of all lines
  when there are fewer).
\<close>

fun IndexByte :: "bytes \<Rightarrow> byte \<Rightarrow> nat option" where
  "IndexByte [] c = None"
| "IndexByte (b # bs) c =
     (if b = c then Some 0 else (case IndexByte bs c of None \<Rightarrow> None | Some i \<Rightarrow> Some (i + 1)))"

function splitLines_loop :: "bytes \<Rightarrow> bytes list \<Rightarrow> bytes list" where
  "splitLines_loop s lines =
     (case IndexByte s 0x0A of
        None \<Rightarrow> lines @ [s]
      | Some idx \<Rightarrow> splitLines_loop (drop (idx + 1) s) (lines @ [take (idx + 1) s]))"
  by pat_completeness auto
termination
proof -
  have found: "idx < length s" if "IndexByte s c = Some idx" for s c idx
    using that by (induction s arbitrary: idx) (auto split: if_splits option.splits)
  show ?thesis
    by (relation "measure (\<lambda>(s, lines). length s)") (auto dest: found)
qed

definition splitLines :: "bytes \<Rightarrow> bytes list" where
  "splitLines content = (if length content = 0 then [[]] else splitLines_loop content [])"

fun lineOffset :: "bytes list \<Rightarrow> nat \<Rightarrow> nat" where
  "lineOffset [] line = 0"
| "lineOffset (l # ls) 0 = 0"
| "lineOffset (l # ls) (Suc line) = length l + lineOffset ls line"

section \<open>Edits of one file: \<^verbatim>\<open>applyFileEdits\<close>\<close>

text \<open>
  \<^verbatim>\<open>Position\<close>, \<^verbatim>\<open>Range\<close> and \<^verbatim>\<open>TextEdit\<close> are the types of
  \<^verbatim>\<open>go.lsp.dev/protocol\<close>: lines and characters are \<^verbatim>\<open>uint32\<close>, the new text is a
  Go string. The field \<^verbatim>\<open>Range\<close> of a text edit is written \<open>Range'\<close>.
\<close>

record Position =
  Line :: "32 word"
  Character :: "32 word"

record Range =
  Start :: Position
  End :: Position

record TextEdit =
  Range' :: Range
  NewText :: bytes

text \<open>
  \<open>editLess\<close> is the comparison that \<^verbatim>\<open>applyFileEdits\<close> passes to
  \<^verbatim>\<open>sort.Slice\<close>: by start line descending, then by start character descending.

  \<^verbatim>\<open>sort.Slice\<close> belongs to Go's standard library and is not a stable sort by contract.
  For a slice of at most 12 elements it runs an insertion sort: the element at index \<open>i\<close>
  moves left while it is less than its left neighbour. \<open>insertionSort_inner\<close> is this inner
  loop, on the sorted prefix held in reverse (nearest neighbour first), and \<open>sort_Slice\<close>
  the outer loop. On longer slices Go switches to another algorithm, with the same result
  whenever no two elements compare as equal.
\<close>

definition editLess :: "TextEdit \<Rightarrow> TextEdit \<Rightarrow> bool" where
  "editLess a b =
     (if Line (Start (Range' a)) \<noteq> Line (Start (Range' b))
      then Line (Start (Range' a)) > Line (Start (Range' b))
      else Character (Start (Range' a)) > Character (Start (Range' b)))"

primrec insertionSort_inner :: "('a \<Rightarrow> 'a \<Rightarrow> bool) \<Rightarrow> 'a \<Rightarrow> 'a list \<Rightarrow> 'a list" where
  "insertionSort_inner lt x [] = [x]"
| "insertionSort_inner lt x (y # ys) =
     (if lt x y then y # insertionSort_inner lt x ys else x # y # ys)"

definition sort_Slice :: "('a \<Rightarrow> 'a \<Rightarrow> bool) \<Rightarrow> 'a list \<Rightarrow> 'a list" where
  "sort_Slice lt xs = rev (foldl (\<lambda>sorted x. insertionSort_inner lt x sorted) [] xs)"

text \<open>
  The two errors of \<^verbatim>\<open>applyFileEdits\<close>, with the numbers their messages print:
  \<^verbatim>\<open>edit range out of bounds: start line, end line, number of lines\<close> and
  \<^verbatim>\<open>computed byte offsets out of range: start, end, len\<close>. The loop carries the
  content and its lines, recomputed after every splice. Line numbers are converted from
  \<^verbatim>\<open>uint32\<close> to Go's 64-bit \<^verbatim>\<open>int\<close>, which holds them all.
\<close>

datatype edit_error =
    OutOfBounds nat nat nat
  | OffsetsOutOfRange nat nat nat

fun applyFileEdits_loop :: "TextEdit list \<Rightarrow> bytes \<Rightarrow> bytes list \<Rightarrow> edit_error + bytes" where
  "applyFileEdits_loop [] content lines = Inr content"
| "applyFileEdits_loop (edit # rest) content lines =
     (let startLine = unat (Line (Start (Range' edit)));
          endLine = unat (Line (End (Range' edit)))
      in
        if startLine \<ge> length lines \<or> endLine \<ge> length lines
        then Inl (OutOfBounds startLine endLine (length lines))
        else
          let startByte = utf16ColToByteOffset (lines ! startLine) (Character (Start (Range' edit)));
              endByte = utf16ColToByteOffset (lines ! endLine) (Character (End (Range' edit)));
              absStart = lineOffset lines startLine + startByte;
              absEnd = lineOffset lines endLine + endByte
          in
            if absStart > length content \<or> absEnd > length content \<or> absStart > absEnd
            then Inl (OffsetsOutOfRange absStart absEnd (length content))
            else
              let buf = take absStart content @ NewText edit @ drop absEnd content
              in applyFileEdits_loop rest buf (splitLines buf))"

definition applyFileEdits :: "bytes \<Rightarrow> TextEdit list \<Rightarrow> edit_error + bytes" where
  "applyFileEdits content edits =
     applyFileEdits_loop (sort_Slice editLess edits) content (splitLines content)"

subsection \<open>Start positions, document order and overlap\<close>

text \<open>
  The sort key of an edit is its start position; positions are compared in document order
  (line, then character). Two edits are disjoint when one ends at or before the start of
  the other; a list of edits is non-overlapping when every range is well formed (its start
  is not after its end) and the edits are pairwise disjoint.
\<close>

definition start_key :: "TextEdit \<Rightarrow> 32 word \<times> 32 word" where
  "start_key e = (Line (Start (Range' e)), Character (Start (Range' e)))"

definition position_le :: "Position \<Rightarrow> Position \<Rightarrow> bool" where
  "position_le p q = (Line p < Line q \<or> (Line p = Line q \<and> Character p \<le> Character q))"

definition ranges_disjoint :: "TextEdit \<Rightarrow> TextEdit \<Rightarrow> bool" where
  "ranges_disjoint a b =
     (position_le (End (Range' a)) (Start (Range' b)) \<or> position_le (End (Range' b)) (Start (Range' a)))"

fun non_overlapping :: "TextEdit list \<Rightarrow> bool" where
  "non_overlapping [] = True"
| "non_overlapping (e # es) =
     (position_le (Start (Range' e)) (End (Range' e))
      \<and> list_all (ranges_disjoint e) es \<and> non_overlapping es)"

subsection \<open>One splice, and the content before each edit\<close>

text \<open>
  The notions in which the behaviour of the edit applier is stated: the number of lines of
  a content, the absolute byte offset of a position (the lengths of the preceding lines
  plus the byte offset of the column in its line), the two failure conditions, the splice
  of one edit, and the current content before the \<open>k\<close>-th edit of a list (the first \<open>k\<close>
  edits spliced in turn).
\<close>

definition line_count :: "bytes \<Rightarrow> nat" where
  "line_count content = length (splitLines content)"

definition abs_offset :: "bytes \<Rightarrow> Position \<Rightarrow> nat" where
  "abs_offset content p =
     lineOffset (splitLines content) (unat (Line p))
       + utf16ColToByteOffset (splitLines content ! unat (Line p)) (Character p)"

definition line_out_of_range :: "bytes \<Rightarrow> TextEdit \<Rightarrow> bool" where
  "line_out_of_range content e =
     (unat (Line (Start (Range' e))) \<ge> line_count content
      \<or> unat (Line (End (Range' e))) \<ge> line_count content)"

definition span_valid :: "bytes \<Rightarrow> TextEdit \<Rightarrow> bool" where
  "span_valid content e =
     (0 \<le> abs_offset content (Start (Range' e))
      \<and> abs_offset content (Start (Range' e)) \<le> abs_offset content (End (Range' e))
      \<and> abs_offset content (End (Range' e)) \<le> length content)"

definition splice_edit :: "bytes \<Rightarrow> TextEdit \<Rightarrow> bytes" where
  "splice_edit content e =
     take (abs_offset content (Start (Range' e))) content @ NewText e
       @ drop (abs_offset content (End (Range' e))) content"

definition current_content :: "bytes \<Rightarrow> TextEdit list \<Rightarrow> nat \<Rightarrow> bytes" where
  "current_content content es k = foldl splice_edit content (take k es)"

definition edit_applies :: "bytes \<Rightarrow> TextEdit list \<Rightarrow> nat \<Rightarrow> bool" where
  "edit_applies content es k =
     (\<not> line_out_of_range (current_content content es k) (es ! k)
      \<and> span_valid (current_content content es k) (es ! k))"

definition is_OutOfBounds :: "edit_error + bytes \<Rightarrow> bool" where
  "is_OutOfBounds r = (case r of Inl (OutOfBounds a b c) \<Rightarrow> True | _ \<Rightarrow> False)"

definition is_OffsetsOutOfRange :: "edit_error + bytes \<Rightarrow> bool" where
  "is_OffsetsOutOfRange r = (case r of Inl (OffsetsOutOfRange a b c) \<Rightarrow> True | _ \<Rightarrow> False)"

section \<open>The transaction: \<^verbatim>\<open>applyWorkspaceEdit\<close>\<close>

text \<open>
  A workspace edit (\<^verbatim>\<open>go.lsp.dev/protocol\<close>) has a map \<^verbatim>\<open>Changes\<close> from document
  URI to edits and a list \<^verbatim>\<open>DocumentChanges\<close> of edits per text document (of the
  document identifier only the URI is used). \<open>editInfo\<close> and \<open>fileWork\<close> are the structs of
  rename.go; the field \<^verbatim>\<open>Edits\<close> of \<open>editInfo\<close> is written \<open>Edits'\<close>.
\<close>

type_synonym DocumentURI = string

type_synonym path = string

record TextDocumentIdentifier =
  URI :: DocumentURI

record TextDocumentEdit =
  TextDocument :: TextDocumentIdentifier
  Edits :: "TextEdit list"

record WorkspaceEdit =
  Changes :: "DocumentURI \<rightharpoonup> TextEdit list"
  DocumentChanges :: "TextDocumentEdit list"

record editInfo =
  File :: path
  Edits' :: nat
  Preview :: bytes

record fileWork =
  path :: path
  original :: bytes
  updated :: bytes
  edits :: "TextEdit list"

text \<open>
  The three errors \<^verbatim>\<open>applyWorkspaceEdit\<close> returns, by their message:
  \<^verbatim>\<open>reading <path>\<close>, \<^verbatim>\<open>applying edits to <path>\<close> (wrapping the error of
  \<^verbatim>\<open>applyFileEdits\<close>) and \<^verbatim>\<open>writing <path>\<close>.
\<close>

datatype apply_error =
    ReadError path
  | ApplyError path edit_error
  | WriteError path

text \<open>
  The file system: the content of every readable file, and the calls of
  \<^verbatim>\<open>os.WriteFile\<close> made so far, oldest first (each with its path and data).

  What the code takes from its environment is a \<open>runtime\<close>: the conversion of a URI to a
  path (\<^verbatim>\<open>docsync.URIToFile\<close>, which calls \<^verbatim>\<open>go.lsp.dev/uri\<close>),
  \<^verbatim>\<open>strings.TrimSpace\<close>, the order in which the Go runtime iterates over the map
  \<^verbatim>\<open>edit.Changes\<close> and over the map \<^verbatim>\<open>merged\<close> (Go leaves the iteration order of
  a map unspecified and randomises it), and which calls of \<^verbatim>\<open>os.WriteFile\<close> fail:
  \<open>writeFails rt n\<close> holds when the call number \<open>n\<close> (counting all calls from 0) fails.
  \<open>map_iteration ks m\<close> says that \<open>ks\<close> is an iteration over the map \<open>m\<close>: every key once.
\<close>

record world =
  files :: "path \<rightharpoonup> bytes"
  writes :: "(path \<times> bytes) list"

record runtime =
  URIToFile :: "DocumentURI \<Rightarrow> path"
  TrimSpace :: "bytes \<Rightarrow> bytes"
  rangeChanges :: "DocumentURI list"
  rangeMerged :: "DocumentURI list"
  writeFails :: "nat \<Rightarrow> bool"

definition map_iteration :: "'k list \<Rightarrow> ('k \<rightharpoonup> 'v) \<Rightarrow> bool" where
  "map_iteration ks m = (distinct ks \<and> set ks = dom m)"

text \<open>
  Reading a Go map at a missing key gives the zero value, here the empty slice.
  \<^verbatim>\<open>os.ReadFile\<close> fails on a file that is not readable. \<^verbatim>\<open>os.WriteFile\<close>
  records the call; when it succeeds the file has the new content, when it fails the
  content is left as it was. The model returns \<open>True\<close> for a nil error.
\<close>

definition lookup :: "('k \<rightharpoonup> 'v list) \<Rightarrow> 'k \<Rightarrow> 'v list" where
  "lookup m k = (case m k of None \<Rightarrow> [] | Some v \<Rightarrow> v)"

definition os_ReadFile :: "world \<Rightarrow> path \<Rightarrow> bytes option" where
  "os_ReadFile w name = files w name"

definition os_WriteFile :: "runtime \<Rightarrow> path \<Rightarrow> bytes \<Rightarrow> world \<Rightarrow> bool \<times> world" where
  "os_WriteFile rt name data w =
     (let w' = w\<lparr>writes := writes w @ [(name, data)]\<rparr>
      in if writeFails rt (length (writes w)) then (False, w')
         else (True, w'\<lparr>files := (files w')(name \<mapsto> data)\<rparr>))"

text \<open>
  Normalisation: \<^verbatim>\<open>merged[docURI] = append(merged[docURI], edits...)\<close>, first for
  every entry of \<^verbatim>\<open>Changes\<close>, then for every element of \<^verbatim>\<open>DocumentChanges\<close>.
\<close>

definition merge_entry ::
  "(DocumentURI \<rightharpoonup> TextEdit list) \<Rightarrow> DocumentURI \<Rightarrow> TextEdit list
     \<Rightarrow> (DocumentURI \<rightharpoonup> TextEdit list)" where
  "merge_entry merged docURI es = merged(docURI \<mapsto> lookup merged docURI @ es)"

definition mergeChanges :: "runtime \<Rightarrow> WorkspaceEdit \<Rightarrow> (DocumentURI \<rightharpoonup> TextEdit list)" where
  "mergeChanges rt edit =
     (let merged =
            foldl (\<lambda>merged docURI. merge_entry merged docURI (lookup (Changes edit) docURI))
              Map.empty (rangeChanges rt)
      in foldl (\<lambda>merged dc. merge_entry merged (URI (TextDocument dc)) (Edits dc))
           merged (DocumentChanges edit))"

text \<open>
  The loops of \<^verbatim>\<open>applyWorkspaceEdit\<close> are functions of their own here
  (\<open>mergeChanges\<close>, \<open>readAndCompute\<close>, \<open>writeAll\<close> with \<open>rollback\<close>, \<open>buildResult\<close>).
  The loop over \<^verbatim>\<open>merged\<close> reads each file and computes its new content; it returns
  at the first error. The next loop writes the files in the order of \<^verbatim>\<open>work\<close>;
  when a write fails it writes the original content of the files written so far,
  ignoring the outcome of these writes (\<^verbatim>\<open>_ = os.WriteFile(...)\<close>), and returns the
  error of the failed write.
\<close>

fun readAndCompute ::
  "runtime \<Rightarrow> world \<Rightarrow> (DocumentURI \<rightharpoonup> TextEdit list) \<Rightarrow> DocumentURI list \<Rightarrow> fileWork list
     \<Rightarrow> apply_error + fileWork list" where
  "readAndCompute rt w merged [] work = Inr work"
| "readAndCompute rt w merged (docURI # rest) work =
     (let filePath = URIToFile rt docURI in
      case os_ReadFile w filePath of
        None \<Rightarrow> Inl (ReadError filePath)
      | Some original' \<Rightarrow>
          (case applyFileEdits original' (lookup merged docURI) of
             Inl err \<Rightarrow> Inl (ApplyError filePath err)
           | Inr updated' \<Rightarrow>
               readAndCompute rt w merged rest
                 (work @ [\<lparr>path = filePath, original = original', updated = updated',
                            edits = lookup merged docURI\<rparr>])))"

fun rollback :: "runtime \<Rightarrow> fileWork list \<Rightarrow> world \<Rightarrow> world" where
  "rollback rt [] w = w"
| "rollback rt (prev # rest) w =
     rollback rt rest (snd (os_WriteFile rt (path prev) (original prev) w))"

fun writeAll ::
  "runtime \<Rightarrow> fileWork list \<Rightarrow> fileWork list \<Rightarrow> world \<Rightarrow> apply_error option \<times> world" where
  "writeAll rt [] written w = (None, w)"
| "writeAll rt (wk # rest) written w =
     (case os_WriteFile rt (path wk) (updated wk) w of
        (ok, w') \<Rightarrow>
          if \<not> ok then (Some (WriteError (path wk)), rollback rt written w')
          else writeAll rt rest (written @ [wk]) w')"

text \<open>
  The result: per path, the number of edits and a preview, the trimmed line of the
  updated content at the smallest start line of the edits. \<^verbatim>\<open>strings.SplitN\<close> with
  the line feed as separator and limit \<open>n\<close> cuts at most \<open>n - 1\<close> times (\<open>genSplit\<close>, with
  the number of cuts left) and returns no piece for \<open>n = 0\<close>.
\<close>

definition firstEditLine :: "TextEdit list \<Rightarrow> 32 word" where
  "firstEditLine es =
     (case es of
        [] \<Rightarrow> 0
      | e # rest \<Rightarrow>
          foldl (\<lambda>m e'. if Line (Start (Range' e')) < m then Line (Start (Range' e')) else m)
            (Line (Start (Range' e))) rest)"

fun genSplit :: "bytes \<Rightarrow> nat \<Rightarrow> bytes list" where
  "genSplit s 0 = [s]"
| "genSplit s (Suc n) =
     (case IndexByte s 0x0A of
        None \<Rightarrow> [s]
      | Some m \<Rightarrow> take m s # genSplit (drop (m + 1) s) n)"

definition SplitN :: "bytes \<Rightarrow> nat \<Rightarrow> bytes list" where
  "SplitN s n = (if n = 0 then [] else genSplit s (n - 1))"

definition preview_of :: "runtime \<Rightarrow> fileWork \<Rightarrow> bytes" where
  "preview_of rt wk =
     (let lines = SplitN (updated wk) (unat (firstEditLine (edits wk)) + 2)
      in if length lines > unat (firstEditLine (edits wk))
         then TrimSpace rt (lines ! unat (firstEditLine (edits wk)))
         else [])"

fun buildResult ::
  "runtime \<Rightarrow> fileWork list \<Rightarrow> (path \<rightharpoonup> editInfo list) \<Rightarrow> (path \<rightharpoonup> editInfo list)" where
  "buildResult rt [] result = result"
| "buildResult rt (wk # rest) result =
     buildResult rt rest
       (result(path wk \<mapsto> lookup result (path wk)
          @ [\<lparr>File = path wk, Edits' = length (edits wk), Preview = preview_of rt wk\<rparr>]))"

definition applyWorkspaceEdit ::
  "runtime \<Rightarrow> WorkspaceEdit \<Rightarrow> world \<Rightarrow> (apply_error + (path \<rightharpoonup> editInfo list)) \<times> world" where
  "applyWorkspaceEdit rt edit w =
     (let merged = mergeChanges rt edit in
      case readAndCompute rt w merged (rangeMerged rt) [] of
        Inl err \<Rightarrow> (Inl err, w)
      | Inr work \<Rightarrow>
          (case writeAll rt work [] w of
             (Some err, w') \<Rightarrow> (Inl err, w')
           | (None, w') \<Rightarrow> (Inr (buildResult rt work Map.empty), w')))"

subsection \<open>The merged edit lists\<close>

text \<open>
  The edits that \<^verbatim>\<open>DocumentChanges\<close> holds for a URI, in list order, and the URIs it
  mentions.
\<close>

definition document_edits :: "WorkspaceEdit \<Rightarrow> DocumentURI \<Rightarrow> TextEdit list" where
  "document_edits e u =
     concat (map Edits (filter (\<lambda>dc. URI (TextDocument dc) = u) (DocumentChanges e)))"

definition document_uris :: "WorkspaceEdit \<Rightarrow> DocumentURI set" where
  "document_uris e = (\<lambda>dc. URI (TextDocument dc)) ` set (DocumentChanges e)"

section \<open>Concrete inputs\<close>

text \<open>
  Inputs on which the theorems below are instantiated: edits on a line of \<^verbatim>\<open>x\<close>
  characters, a workspace edit for the two files \<^verbatim>\<open>/a\<close> and \<^verbatim>\<open>/z\<close>, a workspace
  edit whose only entry has an empty edit list, a runtime with a given iteration order and
  given failing writes (a \<^verbatim>\<open>file://\<close> URI is converted by dropping its first seven
  characters), and file systems. \<open>failure\<close> and \<open>result_counts\<close> read the returned error and
  the edit counts returned for a path.
\<close>

definition replace_first_char :: TextEdit where
  "replace_first_char =
     \<lparr>Range' = \<lparr>Start = \<lparr>Line = 0, Character = 0\<rparr>, End = \<lparr>Line = 0, Character = 1\<rparr>\<rparr>,
      NewText = [0x79]\<rparr>"

definition replace_third_char :: TextEdit where
  "replace_third_char =
     \<lparr>Range' = \<lparr>Start = \<lparr>Line = 0, Character = 2\<rparr>, End = \<lparr>Line = 0, Character = 3\<rparr>\<rparr>,
      NewText = [0x7A]\<rparr>"

definition two_files :: WorkspaceEdit where
  "two_files =
     \<lparr>Changes = [''file:///a'' \<mapsto> [replace_first_char], ''file:///z'' \<mapsto> [replace_first_char]],
      DocumentChanges = []\<rparr>"

definition one_empty_list :: WorkspaceEdit where
  "one_empty_list = \<lparr>Changes = [''file:///a'' \<mapsto> []], DocumentChanges = []\<rparr>"

definition run :: "DocumentURI list \<Rightarrow> (nat \<Rightarrow> bool) \<Rightarrow> runtime" where
  "run order fails =
     \<lparr>URIToFile = drop 7, TrimSpace = id, rangeChanges = order, rangeMerged = order,
      writeFails = fails\<rparr>"

definition disk :: world where
  "disk = \<lparr>files = [''/a'' \<mapsto> [0x78], ''/z'' \<mapsto> [0x78, 0x78]], writes = []\<rparr>"

definition disk_without_z :: world where
  "disk_without_z = \<lparr>files = [''/a'' \<mapsto> [0x78]], writes = []\<rparr>"

definition az :: "DocumentURI list" where "az = [''file:///a'', ''file:///z'']"

definition za :: "DocumentURI list" where "za = [''file:///z'', ''file:///a'']"

definition failure :: "(apply_error + 'r) \<times> world \<Rightarrow> apply_error option" where
  "failure x = (case fst x of Inl err \<Rightarrow> Some err | Inr r \<Rightarrow> None)"

definition insert_A_at_start :: TextEdit where
  "insert_A_at_start =
     \<lparr>Range' = \<lparr>Start = \<lparr>Line = 0, Character = 0\<rparr>, End = \<lparr>Line = 0, Character = 0\<rparr>\<rparr>,
      NewText = [0x41]\<rparr>"

definition insert_B_at_start :: TextEdit where
  "insert_B_at_start =
     \<lparr>Range' = \<lparr>Start = \<lparr>Line = 0, Character = 0\<rparr>, End = \<lparr>Line = 0, Character = 0\<rparr>\<rparr>,
      NewText = [0x42]\<rparr>"

definition empty_disk :: world where
  "empty_disk = \<lparr>files = Map.empty, writes = []\<rparr>"

definition result_counts ::
  "(apply_error + (path \<rightharpoonup> editInfo list)) \<times> world \<Rightarrow> path \<Rightarrow> nat list option" where
  "result_counts x p = (case fst x of Inl err \<Rightarrow> None | Inr res \<Rightarrow> map_option (map Edits') (res p))"

definition edit_past_end :: TextEdit where
  "edit_past_end = \<lparr>Range' = \<lparr>Start = \<lparr>Line = 0, Character = 0\<rparr>, End = \<lparr>Line = 1, Character = 0\<rparr>\<rparr>,
     NewText = [0x41]\<rparr>"

section \<open>Lemmas\<close>

subsection \<open>Widths returned by the decoder\<close>

lemma first_sz:
  "\<not> 0xF0 \<le> first b \<Longrightarrow>
     unat (first b AND 7) = 2 \<or> unat (first b AND 7) = 3 \<or> unat (first b AND 7) = 4"
  by (simp add: first_def split: if_splits)

lemma DecodeRune_size_pos: "s \<noteq> [] \<Longrightarrow> 1 \<le> snd (DecodeRuneInString s)"
  by (simp add: DecodeRuneInString_def Let_def)

lemma DecodeRune_size_le: "snd (DecodeRuneInString s) \<le> length s"
proof (cases "s = []")
  case True
  then show ?thesis by (simp add: DecodeRuneInString_def)
next
  case False
  then have n: "1 \<le> length s" by (cases s) simp_all
  show ?thesis
  proof (cases "0xF0 \<le> first (s ! 0)")
    case True
    then show ?thesis using n by (simp add: DecodeRuneInString_def Let_def)
  next
    case F: False
    from first_sz[OF F] show ?thesis using n F
      by (elim disjE) (simp_all add: DecodeRuneInString_def Let_def)
  qed
qed

lemma DecodeRune_take:
  assumes "snd (DecodeRuneInString s) \<le> n" and "s \<noteq> []"
  shows "DecodeRuneInString (take n s) = DecodeRuneInString s"
proof -
  from assms have n: "1 \<le> n" "1 \<le> length s"
    by (cases s; simp add: DecodeRuneInString_def Let_def split: if_splits)+
  show ?thesis
  proof (cases "0xF0 \<le> first (s ! 0)")
    case True
    then show ?thesis using n by (simp add: DecodeRuneInString_def Let_def min_def)
  next
    case F: False
    from first_sz[OF F] show ?thesis using n F assms(1)
      by (elim disjE) (auto simp add: DecodeRuneInString_def Let_def min_def split: if_splits)
  qed
qed

text \<open>Encodings of one, two and three bytes decode to runes of the basic plane.\<close>

lemma rune1_le: "ucast (s0 :: byte) \<le> (0xFFFF :: rune)"
proof -
  have "(ucast s0 :: rune) AND mask 16 = ucast s0"
    by (rule bit_word_eqI) (auto simp add: bit_simps dest: bit_imp_le_length)
  moreover have "(ucast s0 :: rune) AND mask 16 \<le> mask 16"
    by (rule word_and_le1)
  ultimately show ?thesis by (simp add: mask_eq_exp_minus_1)
qed

lemma rune2_le:
  "push_bit 6 (ucast ((s0 :: byte) AND 0x1F)) OR ucast ((s1 :: byte) AND 0x3F) \<le> (0xFFFF :: rune)"
proof -
  let ?x = "push_bit 6 (ucast (s0 AND 0x1F)) OR ucast (s1 AND 0x3F) :: rune"
  have "?x AND mask 16 = ?x"
    by (rule bit_word_eqI) (auto simp add: bit_simps)
  moreover have "?x AND mask 16 \<le> mask 16"
    by (rule word_and_le1)
  ultimately show ?thesis by (simp add: mask_eq_exp_minus_1)
qed

lemma rune3_le:
  "push_bit 12 (ucast ((s0 :: byte) AND 0x0F)) OR push_bit 6 (ucast ((s1 :: byte) AND 0x3F))
     OR ucast ((s2 :: byte) AND 0x3F) \<le> (0xFFFF :: rune)"
proof -
  let ?x = "push_bit 12 (ucast (s0 AND 0x0F)) OR push_bit 6 (ucast (s1 AND 0x3F))
     OR ucast (s2 AND 0x3F) :: rune"
  have m: "(0x0F :: byte) = mask 4" by (simp add: mask_eq_exp_minus_1)
  have "?x AND mask 16 = ?x"
    unfolding m by (rule bit_word_eqI) (auto simp add: bit_simps)
  moreover have "?x AND mask 16 \<le> mask 16"
    by (rule word_and_le1)
  ultimately show ?thesis by (simp add: mask_eq_exp_minus_1)
qed

lemma DecodeRune_supplementary:
  assumes "DecodeRuneInString s = (r, sz)" and "0xFFFF < r"
  shows "sz = 4"
proof (rule ccontr)
  assume "sz \<noteq> 4"
  with assms(1) have "r \<le> 0xFFFF"
    using rune1_le[of "s ! 0"] rune2_le[of "s ! 0" "s ! 1"] rune3_le[of "s ! 0" "s ! 1" "s ! 2"]
    by (auto simp add: DecodeRuneInString_def Let_def RuneError_def split: if_splits)
  with assms(2) show False by simp
qed

subsection \<open>The loop, unrolled over the decoded characters\<close>

declare utf16_loop.simps [simp del]

declare runes.simps [simp del]

lemma runes_Nil [simp]: "runes [] = []"
  by (simp add: runes.simps)

lemma runes_Cons:
  "s \<noteq> [] \<Longrightarrow> DecodeRuneInString s = (r, sz) \<Longrightarrow> runes s = (r, sz) # runes (drop sz s)"
  by (subst runes.simps) simp

lemma utf16_loop_walk:
  "utf16_loop line utf16Col utf16Count byteOff
     = byteOff + walk (runes (drop byteOff line)) utf16Col utf16Count"
proof (induction line utf16Col utf16Count byteOff rule: utf16_loop.induct)
  case (1 line utf16Col utf16Count byteOff)
  show ?case
  proof (cases "byteOff < length line")
    case False
    then show ?thesis by (subst utf16_loop.simps) simp
  next
    case True
    obtain r sz where D: "DecodeRuneInString (drop byteOff line) = (r, sz)"
      by (cases "DecodeRuneInString (drop byteOff line)")
    from True have ne: "drop byteOff line \<noteq> []" by simp
    note R = runes_Cons[OF ne D]
    show ?thesis
    proof (cases "utf16Col \<le> utf16Count")
      case le: True
      with True show ?thesis by (subst utf16_loop.simps) (simp add: R)
    next
      case nle: False
      have "utf16_loop line utf16Col utf16Count byteOff
          = utf16_loop line utf16Col (if r \<le> 0xFFFF then utf16Count + 1 else utf16Count + 2)
              (byteOff + sz)"
        using True nle D by (subst utf16_loop.simps) simp
      also have "\<dots> = (byteOff + sz)
          + walk (runes (drop (byteOff + sz) line)) utf16Col
              (if r \<le> 0xFFFF then utf16Count + 1 else utf16Count + 2)"
        using "1.IH"[OF True nle D[symmetric]] .
      finally show ?thesis using nle by (simp add: R add.commute)
    qed
  qed
qed

lemma sum_sizes_runes: "sum_list (map snd (runes s)) = length s"
proof (induction s rule: runes.induct)
  case (1 s)
  show ?case
  proof (cases "s = []")
    case True
    then show ?thesis by simp
  next
    case False
    obtain r sz where D: "DecodeRuneInString s = (r, sz)"
      by (cases "DecodeRuneInString s")
    from DecodeRune_size_le[of s] D have "sz \<le> length s" by simp
    with "1.IH"[OF False D[symmetric]] show ?thesis
      by (simp add: runes_Cons[OF False D])
  qed
qed

lemma runes_take:
  "k \<le> length (runes s) \<Longrightarrow>
     runes (take (sum_list (map snd (take k (runes s)))) s) = take k (runes s)"
proof (induction k arbitrary: s)
  case 0
  then show ?case by simp
next
  case (Suc k)
  then have ne: "s \<noteq> []" by auto
  obtain r sz where D: "DecodeRuneInString s = (r, sz)"
    by (cases "DecodeRuneInString s")
  note R = runes_Cons[OF ne D]
  define m where "m = sum_list (map snd (take k (runes (drop sz s))))"
  from Suc.prems R have k: "k \<le> length (runes (drop sz s))" by simp
  from DecodeRune_size_pos[OF ne] D have pos: "1 \<le> sz" by simp
  with ne have ne': "take (sz + m) s \<noteq> []" by (cases s) simp_all
  have D': "DecodeRuneInString (take (sz + m) s) = (r, sz)"
    using DecodeRune_take[of s "sz + m"] D ne by simp
  have "drop sz (take (sz + m) s) = take m (drop sz s)"
    by (simp add: drop_take)
  with runes_Cons[OF ne' D'] Suc.IH[OF k] show ?case
    by (simp add: R m_def)
qed

lemma unat_bump:
  "unat n + utf16_units r < 2 ^ 32 \<Longrightarrow>
     unat (if r \<le> 0xFFFF then n + 1 else n + (2 :: 32 word)) = unat n + utf16_units r"
  by (auto simp add: utf16_units_def unat_add_lem [THEN iffD1])

lemma unat_lt32: "unat (c :: 32 word) < 2 ^ 32"
  using unsigned_less[of c] by simp

lemma walk_boundary:
  "\<exists>k \<le> length rs. walk rs c n = sum_list (map snd (take k rs))"
proof (induction rs arbitrary: n)
  case Nil
  then show ?case by simp
next
  case (Cons a rs)
  obtain r sz where a: "a = (r, sz)" by (cases a)
  show ?case
  proof (cases "c \<le> n")
    case True
    then have "walk (a # rs) c n = sum_list (map snd (take 0 (a # rs)))" by (simp add: a)
    then show ?thesis by blast
  next
    case False
    from Cons.IH[of "if r \<le> 0xFFFF then n + 1 else n + 2"]
    obtain k where "k \<le> length rs"
      "walk rs c (if r \<le> 0xFFFF then n + 1 else n + 2) = sum_list (map snd (take k rs))"
      by blast
    with False have "Suc k \<le> length (a # rs)"
      "walk (a # rs) c n = sum_list (map snd (take (Suc k) (a # rs)))"
      by (simp_all add: a)
    then show ?thesis by blast
  qed
qed

lemma walk_clamp:
  "unat n + sum_list (map (\<lambda>a. utf16_units (fst a)) rs) < unat c \<Longrightarrow>
     walk rs c n = sum_list (map snd rs)"
proof (induction rs arbitrary: n)
  case Nil
  then show ?case by simp
next
  case (Cons a rs)
  obtain r sz where a: "a = (r, sz)" by (cases a)
  from Cons.prems have lt: "unat n + utf16_units r + sum_list (map (\<lambda>a. utf16_units (fst a)) rs) < unat c"
    by (simp add: a)
  then have "unat n < unat c" by simp
  then have nle: "\<not> c \<le> n" by (simp add: word_le_nat_alt)
  from lt unat_lt32[of c] have "unat n + utf16_units r < 2 ^ 32" by simp
  from unat_bump[OF this] lt
  have "walk rs c (if r \<le> 0xFFFF then n + 1 else n + 2) = sum_list (map snd rs)"
    using Cons.IH[of "if r \<le> 0xFFFF then n + 1 else n + 2"] by simp
  with nle show ?case by (simp add: a)
qed

lemma walk_exact:
  "k \<le> length rs \<Longrightarrow> unat c = unat n + sum_list (map (\<lambda>a. utf16_units (fst a)) (take k rs)) \<Longrightarrow>
     walk rs c n = sum_list (map snd (take k rs))"
proof (induction rs arbitrary: n k)
  case Nil
  then show ?case by simp
next
  case (Cons a rs)
  obtain r sz where a: "a = (r, sz)" by (cases a)
  show ?case
  proof (cases k)
    case 0
    with Cons.prems have "unat c = unat n" by simp
    then have "c \<le> n" by (simp add: word_le_nat_alt)
    with 0 show ?thesis by (simp add: a)
  next
    case (Suc j)
    with Cons.prems have j: "j \<le> length rs"
      and eq: "unat c = unat n + utf16_units r + sum_list (map (\<lambda>a. utf16_units (fst a)) (take j rs))"
      by (simp_all add: a)
    have "0 < utf16_units r" by (simp add: utf16_units_def)
    with eq have "unat n < unat c" by simp
    then have nle: "\<not> c \<le> n" by (simp add: word_le_nat_alt)
    from eq unat_lt32[of c] have "unat n + utf16_units r < 2 ^ 32" by simp
    from unat_bump[OF this] eq
    have "walk rs c (if r \<le> 0xFFFF then n + 1 else n + 2) = sum_list (map snd (take j rs))"
      using Cons.IH[OF j, of "if r \<le> 0xFFFF then n + 1 else n + 2"] by simp
    with nle Suc show ?thesis by (simp add: a)
  qed
qed

lemma walk_stop: "c \<le> n \<Longrightarrow> walk rs c n = 0"
  by (cases rs) auto

lemma walk_surrogate:
  "k < length rs \<Longrightarrow> 0xFFFF < fst (rs ! k) \<Longrightarrow>
   unat c = unat n + sum_list (map (\<lambda>a. utf16_units (fst a)) (take k rs)) + 1 \<Longrightarrow>
   unat c < 2 ^ 32 - 1 \<Longrightarrow>
     walk rs c n = sum_list (map snd (take (Suc k) rs))"
proof (induction rs arbitrary: n k)
  case Nil
  then show ?case by simp
next
  case (Cons a rs)
  obtain r sz where a: "a = (r, sz)" by (cases a)
  from Cons.prems(3) have "unat n < unat c" by simp
  then have nle: "\<not> c \<le> n" by (simp add: word_le_nat_alt)
  show ?case
  proof (cases k)
    case 0
    with Cons.prems have big: "0xFFFF < r" and eq: "unat c = unat n + 1"
      by (simp_all add: a)
    from big have u: "utf16_units r = 2" by (auto simp add: utf16_units_def)
    from eq Cons.prems(4) have "unat n + utf16_units r < 2 ^ 32" by (simp add: u)
    from unat_bump[OF this] eq u
    have "unat c \<le> unat (if r \<le> 0xFFFF then n + 1 else n + 2)" by simp
    then have "c \<le> (if r \<le> 0xFFFF then n + 1 else n + 2)" by (simp add: word_le_nat_alt)
    from walk_stop[OF this] nle 0 show ?thesis by (simp add: a)
  next
    case (Suc j)
    with Cons.prems have j: "j < length rs" and big: "0xFFFF < fst (rs ! j)"
      and eq: "unat c = unat n + utf16_units r + sum_list (map (\<lambda>a. utf16_units (fst a)) (take j rs)) + 1"
      by (simp_all add: a)
    from eq unat_lt32[of c] have "unat n + utf16_units r < 2 ^ 32" by simp
    from unat_bump[OF this] eq
    have "walk rs c (if r \<le> 0xFFFF then n + 1 else n + 2) = sum_list (map snd (take (Suc j) rs))"
      using Cons.IH[OF j big _ Cons.prems(4), of "if r \<le> 0xFFFF then n + 1 else n + 2"] by simp
    with nle Suc show ?thesis by (simp add: a)
  qed
qed

subsection \<open>Prefix sums and the shape of the result\<close>

lemma utf16ColToByteOffset_walk:
  "utf16ColToByteOffset line c = walk (runes line) c 0"
  by (simp add: utf16ColToByteOffset_def utf16_loop_walk)

lemma prefix_sums_nth:
  "k \<le> length xs \<Longrightarrow> prefix_sums xs ! k = sum_list (take k xs)"
  unfolding prefix_sums_def by (simp del: upt_Suc add: nth_map_upt)

lemma set_prefix_sums:
  "set (prefix_sums xs) = (\<lambda>k. sum_list (take k xs)) ` {0..length xs}"
  unfolding prefix_sums_def by (simp del: upt_Suc add: atLeastLessThanSuc_atLeastAtMost)

lemma sum_list_take_le: "sum_list (take k xs) \<le> sum_list (xs :: nat list)"
proof -
  have "sum_list (take k xs) + sum_list (drop k xs) = sum_list xs"
    by (metis append_take_drop_id sum_list_append)
  then show ?thesis by simp
qed

lemma runes_decoded:
  "(r, sz) \<in> set (runes s) \<Longrightarrow> \<exists>t. DecodeRuneInString t = (r, sz)"
proof (induction s rule: runes.induct)
  case (1 s)
  show ?case
  proof (cases "s = []")
    case True
    with "1.prems" show ?thesis by simp
  next
    case False
    obtain r' sz' where D: "DecodeRuneInString s = (r', sz')"
      by (cases "DecodeRuneInString s")
    from "1.prems" runes_Cons[OF False D]
    have "(r, sz) = (r', sz') \<or> (r, sz) \<in> set (runes (drop sz' s))" by auto
    then show ?thesis
      using D "1.IH"[OF False D[symmetric]] by auto
  qed
qed

lemma supplementary_size:
  assumes "k < length (runes s)" and "0xFFFF < fst (runes s ! k)"
  shows "snd (runes s ! k) = 4"
proof -
  from assms(1) have "(fst (runes s ! k), snd (runes s ! k)) \<in> set (runes s)" by simp
  from runes_decoded[OF this] obtain t
    where "DecodeRuneInString t = (fst (runes s ! k), snd (runes s ! k))" by blast
  from DecodeRune_supplementary[OF this assms(2)] show ?thesis .
qed

subsection \<open>The sort is determined by the start positions when they are distinct\<close>

lemma editLess_key: "editLess a b \<longleftrightarrow> start_key b < start_key a"
  by (auto simp add: editLess_def start_key_def)

lemma insertionSort_inner_insort:
  "insertionSort_inner editLess x ys = insort_key start_key x ys"
  by (induction ys) (auto simp add: editLess_key)

lemma sort_Slice_sort_key:
  "sort_Slice editLess xs = rev (sort_key start_key (rev xs))"
  by (simp add: sort_Slice_def insertionSort_inner_insort sort_key_def foldl_conv_foldr)

lemma sort_key_unique:
  assumes "mset ys = mset xs" and "distinct (map f xs)"
  shows "sort_key f ys = sort_key f xs"
proof (rule map_sorted_distinct_set_unique[where f = f])
  from assms(1) have s: "set ys = set xs" by (rule mset_eq_setD)
  from assms(2) have "inj_on f (set xs)" by (simp add: distinct_map)
  then show "inj_on f (set (sort_key f ys) \<union> set (sort_key f xs))" by (simp add: s)
  show "sorted (map f (sort_key f ys))" "sorted (map f (sort_key f xs))" by simp_all
  have "mset (map f ys) = mset (map f xs)" using assms(1) by (metis mset_map)
  with assms(2) have "distinct (map f ys)" by (metis mset_eq_imp_distinct_iff)
  then show "distinct (map f (sort_key f ys))" by (simp add: distinct_map)
  from assms(2) show "distinct (map f (sort_key f xs))" by (simp add: distinct_map)
  show "set (sort_key f ys) = set (sort_key f xs)" by (simp add: s)
qed

lemma sort_Slice_permutation:
  assumes "mset es' = mset es" and "distinct (map start_key es)"
  shows "sort_Slice editLess es' = sort_Slice editLess es"
proof -
  from assms(1) have "mset (rev es') = mset (rev es)" by simp
  moreover from assms(2) have "distinct (map start_key (rev es))"
    by (simp add: rev_map[symmetric])
  ultimately have "sort_key start_key (rev es') = sort_key start_key (rev es)"
    by (rule sort_key_unique)
  then show ?thesis by (simp add: sort_Slice_sort_key)
qed

subsection \<open>The loop of \<^verbatim>\<open>applyFileEdits\<close>, step by step\<close>

lemma applyFileEdits_loop_step:
  "applyFileEdits_loop (e # es) content (splitLines content) =
     (if line_out_of_range content e
      then Inl (OutOfBounds (unat (Line (Start (Range' e)))) (unat (Line (End (Range' e))))
                 (line_count content))
      else if \<not> span_valid content e
      then Inl (OffsetsOutOfRange (abs_offset content (Start (Range' e)))
                 (abs_offset content (End (Range' e))) (length content))
      else applyFileEdits_loop es (splice_edit content e) (splitLines (splice_edit content e)))"
  by (auto simp add: Let_def line_out_of_range_def span_valid_def splice_edit_def abs_offset_def
      line_count_def)

declare applyFileEdits_loop.simps(2) [simp del]

lemma current_content_Cons:
  "current_content content (e # es) (Suc k) = current_content (splice_edit content e) es k"
  by (simp add: current_content_def)

lemma current_content_0: "current_content content es 0 = content"
  by (simp add: current_content_def)

lemma edit_applies_Cons:
  "edit_applies content (e # es) (Suc k) = edit_applies (splice_edit content e) es k"
  by (simp add: edit_applies_def current_content_Cons)

lemma edit_applies_0:
  "edit_applies content (e # es) 0 = (\<not> line_out_of_range content e \<and> span_valid content e)"
  by (simp add: edit_applies_def current_content_0)

lemma loop_all_apply:
  "(\<forall>k < length es. edit_applies content es k) \<Longrightarrow>
     applyFileEdits_loop es content (splitLines content)
       = Inr (current_content content es (length es))"
proof (induction es arbitrary: content)
  case Nil
  then show ?case by (simp add: current_content_def)
next
  case (Cons e es)
  from Cons.prems[rule_format, of 0]
  have e: "\<not> line_out_of_range content e" "span_valid content e"
    by (simp_all add: edit_applies_0)
  have "\<forall>k < length es. edit_applies (splice_edit content e) es k"
  proof (intro allI impI)
    fix k assume "k < length es"
    then have "Suc k < length (e # es)" by simp
    with Cons.prems show "edit_applies (splice_edit content e) es k"
      unfolding edit_applies_Cons[symmetric] by blast
  qed
  from Cons.IH[OF this] e show ?case
    by (simp add: applyFileEdits_loop_step current_content_Cons)
qed

lemma loop_first_failure:
  "k < length es \<Longrightarrow> (\<forall>j < k. edit_applies content es j) \<Longrightarrow>
   \<not> edit_applies content es k \<Longrightarrow>
     applyFileEdits_loop es content (splitLines content)
       = (if line_out_of_range (current_content content es k) (es ! k)
          then Inl (OutOfBounds (unat (Line (Start (Range' (es ! k)))))
                     (unat (Line (End (Range' (es ! k)))))
                     (line_count (current_content content es k)))
          else Inl (OffsetsOutOfRange (abs_offset (current_content content es k) (Start (Range' (es ! k))))
                     (abs_offset (current_content content es k) (End (Range' (es ! k))))
                     (length (current_content content es k))))"
proof (induction es arbitrary: content k)
  case Nil
  then show ?case by simp
next
  case (Cons e es)
  show ?case
  proof (cases k)
    case 0
    with Cons.prems(3) show ?thesis
      by (auto simp add: applyFileEdits_loop_step edit_applies_0 current_content_0)
  next
    case (Suc j)
    with Cons.prems have j: "j < length es"
      and nj: "\<not> edit_applies (splice_edit content e) es j"
      by (simp_all add: edit_applies_Cons)
    from Cons.prems(2) Suc have "edit_applies content (e # es) 0" by simp
    then have e: "\<not> line_out_of_range content e" "span_valid content e"
      by (simp_all add: edit_applies_0)
    have "\<forall>i < j. edit_applies (splice_edit content e) es i"
    proof (intro allI impI)
      fix i assume "i < j"
      then have "Suc i < k" using Suc by simp
      with Cons.prems(2) show "edit_applies (splice_edit content e) es i"
        unfolding edit_applies_Cons[symmetric] by blast
    qed
    from Cons.IH[OF j this nj] e Suc show ?thesis
      by (simp add: applyFileEdits_loop_step current_content_Cons)
  qed
qed

lemma first_failure_exists:
  assumes "\<not> (\<forall>k < length es. edit_applies content es k)"
  obtains k where "k < length es" "\<forall>j < k. edit_applies content es j"
    "\<not> edit_applies content es k"
proof -
  define P where "P k \<longleftrightarrow> k < length es \<and> \<not> edit_applies content es k" for k
  from assms obtain k0 where "P k0" unfolding P_def by blast
  define k where "k = (LEAST k. P k)"
  have Pk: "P k" unfolding k_def using \<open>P k0\<close> by (rule LeastI)
  have "\<forall>j < k. edit_applies content es j"
  proof (intro allI impI)
    fix j assume jk: "j < k"
    then have "\<not> P j" unfolding k_def by (rule not_less_Least)
    moreover from jk Pk have "j < length es" unfolding P_def by simp
    ultimately show "edit_applies content es j" unfolding P_def by blast
  qed
  with Pk that show thesis unfolding P_def by blast
qed

lemma first_failure_unique:
  assumes "\<forall>j < k. edit_applies content es j" "\<not> edit_applies content es k"
    and "\<forall>j < k'. edit_applies content es j" "\<not> edit_applies content es k'"
  shows "k' = k"
proof (rule ccontr)
  assume "k' \<noteq> k"
  then consider "k' < k" | "k < k'" by linarith
  then show False
  proof cases
    case 1
    with assms(1) assms(4) show False by blast
  next
    case 2
    with assms(3) assms(2) show False by blast
  qed
qed

subsection \<open>Writes, rollback and the read loop\<close>

lemma os_WriteFile_writes [simp]:
  "writes (snd (os_WriteFile rt name data w)) = writes w @ [(name, data)]"
  by (simp add: os_WriteFile_def Let_def)

lemma os_WriteFile_files:
  "files (snd (os_WriteFile rt name data w))
     = (if writeFails rt (length (writes w)) then files w else (files w)(name \<mapsto> data))"
  by (simp add: os_WriteFile_def Let_def)

lemma os_WriteFile_ok [simp]:
  "fst (os_WriteFile rt name data w) = (\<not> writeFails rt (length (writes w)))"
  by (simp add: os_WriteFile_def Let_def)

lemma rollback_writes:
  "writes (rollback rt ws w) = writes w @ map (\<lambda>wk. (path wk, original wk)) ws"
  by (induction ws arbitrary: w) simp_all

lemma rollback_files:
  assumes "\<forall>i < length ws. \<not> writeFails rt (length (writes w) + i)"
    and "\<forall>wk \<in> set ws. f0 (path wk) = Some (original wk)"
  shows "files (rollback rt ws w) p = (if p \<in> path ` set ws then f0 p else files w p)"
  using assms
proof (induction ws arbitrary: w)
  case Nil
  then show ?case by simp
next
  case (Cons prev rest)
  define w1 where "w1 = snd (os_WriteFile rt (path prev) (original prev) w)"
  from Cons.prems(1)[rule_format, of 0] have ok: "\<not> writeFails rt (length (writes w))" by simp
  have len: "length (writes w1) = Suc (length (writes w))" by (simp add: w1_def)
  have f1: "files w1 = (files w)(path prev \<mapsto> original prev)"
    using ok by (simp add: w1_def os_WriteFile_files)
  have "\<forall>i < length rest. \<not> writeFails rt (length (writes w1) + i)"
  proof (intro allI impI)
    fix i assume "i < length rest"
    then have "Suc i < length (prev # rest)" by simp
    from Cons.prems(1)[rule_format, OF this] show "\<not> writeFails rt (length (writes w1) + i)"
      by (simp add: len)
  qed
  moreover from Cons.prems(2) have "\<forall>wk \<in> set rest. f0 (path wk) = Some (original wk)" by simp
  ultimately have "files (rollback rt rest w1) p = (if p \<in> path ` set rest then f0 p else files w1 p)"
    by (rule Cons.IH)
  moreover from Cons.prems(2) have "f0 (path prev) = Some (original prev)" by simp
  ultimately show ?case by (auto simp add: w1_def[symmetric] f1)
qed

lemma writeAll_failure:
  assumes "writeAll rt work written w = (Some err, w')"
  shows "\<exists>k < length work. err = WriteError (path (work ! k))
      \<and> writeFails rt (length (writes w) + k)
      \<and> (\<forall>i < k. \<not> writeFails rt (length (writes w) + i))
      \<and> writes w' = writes w @ map (\<lambda>wk. (path wk, updated wk)) (take (Suc k) work)
            @ map (\<lambda>wk. (path wk, original wk)) (written @ take k work)
      \<and> ((\<forall>p. p \<notin> path ` set written \<longrightarrow> files w p = f0 p)
           \<and> (\<forall>wk \<in> set (written @ work). f0 (path wk) = Some (original wk))
           \<and> (\<forall>i < length written + k. \<not> writeFails rt (length (writes w) + Suc k + i))
          \<longrightarrow> files w' = f0)"
  using assms
proof (induction work arbitrary: written w)
  case Nil
  then show ?case by simp
next
  case (Cons wk rest)
  define w1 where "w1 = snd (os_WriteFile rt (path wk) (updated wk) w)"
  have len: "length (writes w1) = Suc (length (writes w))" by (simp add: w1_def)
  have wr: "writes w1 = writes w @ [(path wk, updated wk)]" by (simp add: w1_def)
  have split: "os_WriteFile rt (path wk) (updated wk) w = (\<not> writeFails rt (length (writes w)), w1)"
    by (simp add: w1_def prod_eq_iff)
  show ?case
  proof (cases "writeFails rt (length (writes w))")
    case True
    with Cons.prems split have err: "err = WriteError (path wk)" and w': "w' = rollback rt written w1"
      by simp_all
    have f1: "files w1 = files w" using True by (simp add: w1_def os_WriteFile_files)
    have files: "files w' = f0"
      if inv: "\<forall>p. p \<notin> path ` set written \<longrightarrow> files w p = f0 p"
        and orig: "\<forall>wk \<in> set (written @ wk # rest). f0 (path wk) = Some (original wk)"
        and ok: "\<forall>i < length written + 0. \<not> writeFails rt (length (writes w) + Suc 0 + i)"
    proof (rule ext)
      fix p
      from ok have "\<forall>i < length written. \<not> writeFails rt (length (writes w1) + i)"
        by (simp add: len)
      moreover from orig have "\<forall>wk \<in> set written. f0 (path wk) = Some (original wk)" by simp
      ultimately have "files w' p = (if p \<in> path ` set written then f0 p else files w1 p)"
        unfolding w' by (rule rollback_files)
      with inv f1 show "files w' p = f0 p" by simp
    qed
    have "0 < length (wk # rest) \<and> err = WriteError (path ((wk # rest) ! 0))
      \<and> writeFails rt (length (writes w) + 0)
      \<and> (\<forall>i < 0. \<not> writeFails rt (length (writes w) + i))
      \<and> writes w' = writes w @ map (\<lambda>wk. (path wk, updated wk)) (take (Suc 0) (wk # rest))
            @ map (\<lambda>wk. (path wk, original wk)) (written @ take 0 (wk # rest))
      \<and> ((\<forall>p. p \<notin> path ` set written \<longrightarrow> files w p = f0 p)
           \<and> (\<forall>wk \<in> set (written @ wk # rest). f0 (path wk) = Some (original wk))
           \<and> (\<forall>i < length written + 0. \<not> writeFails rt (length (writes w) + Suc 0 + i))
          \<longrightarrow> files w' = f0)"
      using True err files by (simp add: w' rollback_writes wr)
    then show ?thesis by blast
  next
    case False
    with Cons.prems split have rec: "writeAll rt rest (written @ [wk]) w1 = (Some err, w')"
      by simp
    have f1: "files w1 = (files w)(path wk \<mapsto> updated wk)"
      using False by (simp add: w1_def os_WriteFile_files)
    from Cons.IH[OF rec] obtain k where k: "k < length rest"
      and err: "err = WriteError (path (rest ! k))"
      and fk: "writeFails rt (length (writes w1) + k)"
      and before: "\<forall>i < k. \<not> writeFails rt (length (writes w1) + i)"
      and wr': "writes w' = writes w1 @ map (\<lambda>wk. (path wk, updated wk)) (take (Suc k) rest)
            @ map (\<lambda>wk. (path wk, original wk)) ((written @ [wk]) @ take k rest)"
      and fs: "(\<forall>p. p \<notin> path ` set (written @ [wk]) \<longrightarrow> files w1 p = f0 p)
           \<and> (\<forall>wk' \<in> set ((written @ [wk]) @ rest). f0 (path wk') = Some (original wk'))
           \<and> (\<forall>i < length (written @ [wk]) + k. \<not> writeFails rt (length (writes w1) + Suc k + i))
          \<longrightarrow> files w' = f0"
      by blast
    have before': "\<forall>i < Suc k. \<not> writeFails rt (length (writes w) + i)"
    proof (intro allI impI)
      fix i assume i: "i < Suc k"
      show "\<not> writeFails rt (length (writes w) + i)"
      proof (cases i)
        case 0
        with False show ?thesis by simp
      next
        case (Suc j)
        with i before[rule_format, of j] show ?thesis by (simp add: len)
      qed
    qed
    have files: "files w' = f0"
      if inv: "\<forall>p. p \<notin> path ` set written \<longrightarrow> files w p = f0 p"
        and orig: "\<forall>wk' \<in> set (written @ wk # rest). f0 (path wk') = Some (original wk')"
        and ok: "\<forall>i < length written + Suc k. \<not> writeFails rt (length (writes w) + Suc (Suc k) + i)"
    proof -
      from inv have "\<forall>p. p \<notin> path ` set (written @ [wk]) \<longrightarrow> files w1 p = f0 p"
        by (simp add: f1)
      moreover from orig
      have "\<forall>wk' \<in> set ((written @ [wk]) @ rest). f0 (path wk') = Some (original wk')" by simp
      moreover from ok
      have "\<forall>i < length (written @ [wk]) + k. \<not> writeFails rt (length (writes w1) + Suc k + i)"
        by (simp add: len)
      ultimately show ?thesis using fs by blast
    qed
    have "Suc k < length (wk # rest) \<and> err = WriteError (path ((wk # rest) ! Suc k))
      \<and> writeFails rt (length (writes w) + Suc k)
      \<and> (\<forall>i < Suc k. \<not> writeFails rt (length (writes w) + i))
      \<and> writes w' = writes w @ map (\<lambda>wk. (path wk, updated wk)) (take (Suc (Suc k)) (wk # rest))
            @ map (\<lambda>wk. (path wk, original wk)) (written @ take (Suc k) (wk # rest))
      \<and> ((\<forall>p. p \<notin> path ` set written \<longrightarrow> files w p = f0 p)
           \<and> (\<forall>wk' \<in> set (written @ wk # rest). f0 (path wk') = Some (original wk'))
           \<and> (\<forall>i < length written + Suc k. \<not> writeFails rt (length (writes w) + Suc (Suc k) + i))
          \<longrightarrow> files w' = f0)"
      using k err fk before' files by (simp add: wr' wr len)
    then show ?thesis by blast
  qed
qed

lemma writeAll_success:
  "writeAll rt work written w = (None, w') \<Longrightarrow>
     writes w' = writes w @ map (\<lambda>wk. (path wk, updated wk)) work"
proof (induction work arbitrary: written w)
  case Nil
  then show ?case by simp
next
  case (Cons wk rest)
  define w1 where "w1 = snd (os_WriteFile rt (path wk) (updated wk) w)"
  have split: "os_WriteFile rt (path wk) (updated wk) w = (\<not> writeFails rt (length (writes w)), w1)"
    by (simp add: w1_def prod_eq_iff)
  from Cons.prems split have "writeAll rt rest (written @ [wk]) w1 = (None, w')"
    by (simp split: if_splits)
  from Cons.IH[OF this] show ?case by (simp add: w1_def)
qed

lemma readAndCompute_work:
  assumes "readAndCompute rt w merged us work0 = Inr work"
  shows "map path work = map path work0 @ map (URIToFile rt) us
      \<and> map edits work = map edits work0 @ map (lookup merged) us
      \<and> ((\<forall>wk \<in> set work0. files w (path wk) = Some (original wk)
                \<and> applyFileEdits (original wk) (edits wk) = Inr (updated wk))
            \<longrightarrow> (\<forall>wk \<in> set work. files w (path wk) = Some (original wk)
                \<and> applyFileEdits (original wk) (edits wk) = Inr (updated wk)))"
  using assms
proof (induction us arbitrary: work0)
  case Nil
  then show ?case by simp
next
  case (Cons u us)
  from Cons.prems obtain o' u' where rd: "files w (URIToFile rt u) = Some o'"
    and ap: "applyFileEdits o' (lookup merged u) = Inr u'"
    and rec: "readAndCompute rt w merged us
        (work0 @ [\<lparr>path = URIToFile rt u, original = o', updated = u', edits = lookup merged u\<rparr>])
        = Inr work"
    by (auto simp add: Let_def os_ReadFile_def split: option.splits sum.splits)
  from Cons.IH[OF rec] rd ap show ?case by auto
qed

subsection \<open>The outcomes of the transaction\<close>

lemma readAndCompute_error:
  "readAndCompute rt w merged us work0 = Inl err \<Longrightarrow>
     (\<exists>p. err = ReadError p) \<or> (\<exists>p ee. err = ApplyError p ee)"
  by (induction us arbitrary: work0)
    (auto simp add: Let_def split: option.splits sum.splits)

lemma applyWorkspaceEdit_cases:
  "(\<exists>err. readAndCompute rt w (mergeChanges rt e) (rangeMerged rt) [] = Inl err
        \<and> applyWorkspaceEdit rt e w = (Inl err, w) \<and> (\<forall>p. err \<noteq> WriteError p))
   \<or> (\<exists>work err w'. readAndCompute rt w (mergeChanges rt e) (rangeMerged rt) [] = Inr work
        \<and> writeAll rt work [] w = (Some err, w')
        \<and> applyWorkspaceEdit rt e w = (Inl err, w'))
   \<or> (\<exists>work w'. readAndCompute rt w (mergeChanges rt e) (rangeMerged rt) [] = Inr work
        \<and> writeAll rt work [] w = (None, w')
        \<and> applyWorkspaceEdit rt e w = (Inr (buildResult rt work Map.empty), w'))"
proof (cases "readAndCompute rt w (mergeChanges rt e) (rangeMerged rt) []")
  case (Inl err)
  from readAndCompute_error[OF Inl] have "\<forall>p. err \<noteq> WriteError p" by auto
  with Inl show ?thesis by (simp add: applyWorkspaceEdit_def)
next
  case (Inr work)
  obtain r w' where "writeAll rt work [] w = (r, w')" by (cases "writeAll rt work [] w")
  with Inr show ?thesis by (cases r) (simp_all add: applyWorkspaceEdit_def)
qed

lemma writeAll_no_failure:
  "writeAll rt work written w = (None, w') \<Longrightarrow> i < length work \<Longrightarrow>
     \<not> writeFails rt (length (writes w) + i)"
proof (induction work arbitrary: written w i)
  case Nil
  then show ?case by simp
next
  case (Cons wk rest)
  define w1 where "w1 = snd (os_WriteFile rt (path wk) (updated wk) w)"
  have split: "os_WriteFile rt (path wk) (updated wk) w = (\<not> writeFails rt (length (writes w)), w1)"
    by (simp add: w1_def prod_eq_iff)
  from Cons.prems(1) split have ok: "\<not> writeFails rt (length (writes w))"
    and rec: "writeAll rt rest (written @ [wk]) w1 = (None, w')"
    by (simp_all split: if_splits)
  show ?case
  proof (cases i)
    case 0
    with ok show ?thesis by simp
  next
    case (Suc j)
    with Cons.prems(2) have "j < length rest" by simp
    from Cons.IH[OF rec this] Suc show ?thesis by (simp add: w1_def)
  qed
qed

lemma readAndCompute_writeFails [simp]:
  "readAndCompute (rt\<lparr>writeFails := g\<rparr>) w merged us work0 = readAndCompute rt w merged us work0"
  by (induction us arbitrary: work0) (simp_all add: Let_def split: option.splits sum.splits)

lemma buildResult_writeFails [simp]:
  "buildResult (rt\<lparr>writeFails := g\<rparr>) work res = buildResult rt work res"
  by (induction work arbitrary: res) (simp_all add: preview_of_def Let_def)

lemma mergeChanges_writeFails [simp]:
  "mergeChanges (rt\<lparr>writeFails := g\<rparr>) e = mergeChanges rt e"
  by (simp add: mergeChanges_def)

lemma writeAll_result_independent:
  assumes "\<forall>i \<le> k. writeFails rt2 i = writeFails rt i" and "writeFails rt k"
    and "length (writes w) \<le> k" and "length (writes w2) = length (writes w)"
  shows "fst (writeAll rt2 work written2 w2) = fst (writeAll rt work written w)"
  using assms(3,4)
proof (induction work arbitrary: written written2 w w2)
  case Nil
  then show ?case by simp
next
  case (Cons wk rest)
  define v where "v = snd (os_WriteFile rt (path wk) (updated wk) w)"
  define v2 where "v2 = snd (os_WriteFile rt2 (path wk) (updated wk) w2)"
  have s: "os_WriteFile rt (path wk) (updated wk) w = (\<not> writeFails rt (length (writes w)), v)"
    by (simp add: v_def prod_eq_iff)
  have s2: "os_WriteFile rt2 (path wk) (updated wk) w2 = (\<not> writeFails rt2 (length (writes w2)), v2)"
    by (simp add: v2_def prod_eq_iff)
  from assms(1) Cons.prems
  have same: "writeFails rt2 (length (writes w2)) = writeFails rt (length (writes w))" by simp
  show ?case
  proof (cases "writeFails rt (length (writes w))")
    case True
    with same show ?thesis by (simp add: s s2)
  next
    case False
    with assms(2) have "length (writes w) \<noteq> k" by auto
    with Cons.prems have "length (writes v) \<le> k" "length (writes v2) = length (writes v)"
      by (simp_all add: v_def v2_def)
    from Cons.IH[OF this] False same show ?thesis by (simp add: s s2)
  qed
qed

subsection \<open>Normalisation and the result map\<close>

lemma lookup_upd: "lookup (m(k \<mapsto> v)) p = (if p = k then v else lookup m p)"
  by (simp add: lookup_def)

lemma merge_entry_apply:
  "merge_entry m k es u = (if u = k then Some (lookup m u @ es) else m u)"
  by (simp add: merge_entry_def)

lemma lookup_merge_entry:
  "lookup (merge_entry m k es) u = (if u = k then lookup m u @ es else lookup m u)"
  by (simp add: merge_entry_def lookup_upd)

lemma merge_changes_loop:
  "distinct us \<Longrightarrow>
     foldl (\<lambda>merged docURI. merge_entry merged docURI (lookup c docURI)) m us u
       = (if u \<in> set us then Some (lookup m u @ lookup c u) else m u)"
proof (induction us arbitrary: m)
  case Nil
  then show ?case by simp
next
  case (Cons a us)
  then have "distinct us" and "a \<notin> set us" by simp_all
  note IH = Cons.IH[OF this(1), of "merge_entry m a (lookup c a)"]
  from \<open>a \<notin> set us\<close> show ?case
    unfolding foldl_Cons IH by (auto simp add: merge_entry_apply lookup_merge_entry)
qed

lemma merge_document_changes_loop:
  "foldl (\<lambda>merged dc. merge_entry merged (URI (TextDocument dc)) (Edits dc)) m dcs u
     = (if u \<in> (\<lambda>dc. URI (TextDocument dc)) ` set dcs
        then Some (lookup m u @ concat (map Edits (filter (\<lambda>dc. URI (TextDocument dc) = u) dcs)))
        else m u)"
proof (induction dcs arbitrary: m)
  case Nil
  then show ?case by simp
next
  case (Cons dc dcs)
  show ?case
    unfolding foldl_Cons Cons.IH
    by (auto simp add: merge_entry_apply lookup_merge_entry image_iff filter_empty_conv)
qed

lemma mergeChanges_eq:
  assumes "map_iteration (rangeChanges rt) (Changes e)"
  shows "mergeChanges rt e u =
     (if u \<in> dom (Changes e) \<union> document_uris e
      then Some (lookup (Changes e) u @ document_edits e u) else None)"
proof -
  from assms have d: "distinct (rangeChanges rt)" and s: "set (rangeChanges rt) = dom (Changes e)"
    by (simp_all add: map_iteration_def)
  have "u \<notin> dom (Changes e) \<Longrightarrow> lookup (Changes e) u = []"
    by (auto simp add: lookup_def split: option.splits)
  then show ?thesis
    unfolding mergeChanges_def Let_def merge_document_changes_loop merge_changes_loop[OF d]
    by (auto simp add: s document_uris_def document_edits_def lookup_def)
qed

lemma buildResult_dom:
  "dom (buildResult rt work res) = dom res \<union> path ` set work"
  by (induction work arbitrary: res) auto

lemma buildResult_keeps:
  "i \<in> set (lookup res p) \<Longrightarrow> i \<in> set (lookup (buildResult rt work res) p)"
proof (induction work arbitrary: res)
  case Nil
  then show ?case by simp
next
  case (Cons a work)
  from Cons.prems
  have "i \<in> set (lookup (res(path a \<mapsto> lookup res (path a)
       @ [\<lparr>File = path a, Edits' = length (edits a), Preview = preview_of rt a\<rparr>])) p)"
    by (auto simp add: lookup_upd)
  from Cons.IH[OF this] show ?case by (simp only: buildResult.simps)
qed

lemma buildResult_entry:
  "wk \<in> set work \<Longrightarrow>
     \<lparr>File = path wk, Edits' = length (edits wk), Preview = preview_of rt wk\<rparr>
       \<in> set (lookup (buildResult rt work res) (path wk))"
proof (induction work arbitrary: res)
  case Nil
  then show ?case by simp
next
  case (Cons a work)
  show ?case
  proof (cases "wk = a")
    case True
    have "\<lparr>File = path a, Edits' = length (edits a), Preview = preview_of rt a\<rparr>
        \<in> set (lookup (res(path a \<mapsto> lookup res (path a)
              @ [\<lparr>File = path a, Edits' = length (edits a), Preview = preview_of rt a\<rparr>])) (path a))"
      by (simp add: lookup_upd)
    from buildResult_keeps[OF this] True show ?thesis by (simp only: buildResult.simps)
  next
    case False
    with Cons.prems have "wk \<in> set work" by simp
    from Cons.IH[OF this] show ?thesis by (simp only: buildResult.simps)
  qed
qed

lemma applyFileEdits_no_edits: "applyFileEdits content [] = Inr content"
  by (simp add: applyFileEdits_def sort_Slice_def)

lemma failure_eq: "failure x = Some err \<longleftrightarrow> fst x = Inl err"
  by (cases "fst x") (simp_all add: failure_def)

section \<open>Properties\<close>

text \<open>
  Claim C1 (rollback). If the read and compute phase succeeds and a write of the write
  phase fails, the transaction returns a write error. Whenever it returns the write error
  for a path \<open>p\<close>: the calls of \<^verbatim>\<open>os.WriteFile\<close> it made are the successful writes
  \<open>ws\<close> of the files before the failing one, the failed write, which is the write of \<open>p\<close>,
  and then one write for each file of \<open>ws\<close>, in the same order, with the content the file
  had before the transaction. If these rollback writes succeed, every file written before
  the failing one has its content of before the transaction again, and so has the whole
  file system (a failed write leaves its file as it was).
\<close>

theorem rollback_restores_written_files:
  "(readAndCompute rt w (mergeChanges rt e) (rangeMerged rt) [] = Inr work
      \<and> k < length work \<and> writeFails rt (length (writes w) + k)
     \<longrightarrow> (\<exists>p. fst (applyWorkspaceEdit rt e w) = Inl (WriteError p)))
   \<and> (applyWorkspaceEdit rt e w = (Inl (WriteError p), w') \<longrightarrow>
       (\<exists>ws d. writes w' = writes w @ ws @ [(p, d)] @ map (\<lambda>(q, u). (q, the (files w q))) ws
          \<and> (\<forall>i < length ws. \<not> writeFails rt (length (writes w) + i))
          \<and> writeFails rt (length (writes w) + length ws)
          \<and> ((\<forall>i < length ws. \<not> writeFails rt (length (writes w) + length ws + 1 + i))
              \<longrightarrow> (\<forall>q \<in> fst ` set ws. files w' q = files w q) \<and> files w' = files w)))"
proof (intro conjI impI)
  assume a: "readAndCompute rt w (mergeChanges rt e) (rangeMerged rt) [] = Inr work
      \<and> k < length work \<and> writeFails rt (length (writes w) + k)"
  obtain r v where wr: "writeAll rt work [] w = (r, v)" by (cases "writeAll rt work [] w")
  show "\<exists>p. fst (applyWorkspaceEdit rt e w) = Inl (WriteError p)"
  proof (cases r)
    case None
    with wr a writeAll_no_failure[of rt work "[]" w v k] show ?thesis by simp
  next
    case (Some err)
    with wr writeAll_failure[of rt work "[]" w err v "files w"]
    obtain p where "err = WriteError p" by blast
    with a wr Some show ?thesis by (simp add: applyWorkspaceEdit_def)
  qed
next
  assume res: "applyWorkspaceEdit rt e w = (Inl (WriteError p), w')"
  from applyWorkspaceEdit_cases[of rt w e] res
  obtain work where rd: "readAndCompute rt w (mergeChanges rt e) (rangeMerged rt) [] = Inr work"
    and wr: "writeAll rt work [] w = (Some (WriteError p), w')"
    by auto
  from readAndCompute_work[OF rd]
  have orig: "\<forall>wk \<in> set work. files w (path wk) = Some (original wk)" by simp
  from writeAll_failure[OF wr, of "files w"] obtain k where k: "k < length work"
    and p: "p = path (work ! k)"
    and fk: "writeFails rt (length (writes w) + k)"
    and before: "\<forall>i < k. \<not> writeFails rt (length (writes w) + i)"
    and tr: "writes w' = writes w @ map (\<lambda>wk. (path wk, updated wk)) (take (Suc k) work)
            @ map (\<lambda>wk. (path wk, original wk)) ([] @ take k work)"
    and fs: "(\<forall>p. p \<notin> path ` set [] \<longrightarrow> files w p = files w p)
           \<and> (\<forall>wk \<in> set ([] @ work). files w (path wk) = Some (original wk))
           \<and> (\<forall>i < length ([] :: fileWork list) + k. \<not> writeFails rt (length (writes w) + Suc k + i))
          \<longrightarrow> files w' = files w"
    by blast
  define ws where "ws = map (\<lambda>wk. (path wk, updated wk)) (take k work)"
  have len: "length ws = k" using k by (simp add: ws_def)
  have "map (\<lambda>wk. (path wk, original wk)) (take k work)
      = map (\<lambda>(q, u). (q, the (files w q))) ws"
    using orig by (auto simp add: ws_def dest: in_set_takeD)
  with tr k have "writes w' = writes w @ ws @ [(p, updated (work ! k))]
      @ map (\<lambda>(q, u). (q, the (files w q))) ws"
    by (simp add: take_Suc_conv_app_nth ws_def p)
  moreover have "(\<forall>q \<in> fst ` set ws. files w' q = files w q) \<and> files w' = files w"
    if "\<forall>i < length ws. \<not> writeFails rt (length (writes w) + length ws + 1 + i)"
    using that fs orig by (simp add: len)
  ultimately show "\<exists>ws d. writes w' = writes w @ ws @ [(p, d)] @ map (\<lambda>(q, u). (q, the (files w q))) ws
          \<and> (\<forall>i < length ws. \<not> writeFails rt (length (writes w) + i))
          \<and> writeFails rt (length (writes w) + length ws)
          \<and> ((\<forall>i < length ws. \<not> writeFails rt (length (writes w) + length ws + 1 + i))
              \<longrightarrow> (\<forall>q \<in> fst ` set ws. files w' q = files w q) \<and> files w' = files w)"
    using before fk len by blast
qed

theorem rollback_restores_written_files_witness:
  "failure (applyWorkspaceEdit (run az (\<lambda>n. n = 1)) two_files disk) = Some (WriteError ''/z'')
   \<and> writes (snd (applyWorkspaceEdit (run az (\<lambda>n. n = 1)) two_files disk))
       = [(''/a'', [0x79]), (''/z'', [0x79, 0x78]), (''/a'', [0x78])]
   \<and> files (snd (applyWorkspaceEdit (run az (\<lambda>n. n = 1)) two_files disk)) ''/a''
       = files disk ''/a''"
proof -
  define x where "x = applyWorkspaceEdit (run az (\<lambda>n. n = 1)) two_files disk"
  have f: "failure x = Some (WriteError ''/z'')" unfolding x_def by code_simp
  have t: "writes (snd x) = [(''/a'', [0x79]), (''/z'', [0x79, 0x78]), (''/a'', [0x78])]"
    unfolding x_def by code_simp
  have d: "writes disk = []" by (simp add: disk_def)
  from f have "applyWorkspaceEdit (run az (\<lambda>n. n = 1)) two_files disk
      = (Inl (WriteError ''/z''), snd x)"
    by (simp add: failure_eq x_def prod_eq_iff)
  with rollback_restores_written_files[of "run az (\<lambda>n. n = 1)" disk two_files _ _
      "''/z''" "snd x"] obtain ws dd
    where tr: "writes (snd x) = writes disk @ ws @ [(''/z'', dd)]
        @ map (\<lambda>(q, u). (q, the (files disk q))) ws"
      and re: "(\<forall>i < length ws. \<not> writeFails (run az (\<lambda>n. n = 1))
                 (length (writes disk) + length ws + 1 + i))
          \<longrightarrow> (\<forall>q \<in> fst ` set ws. files (snd x) q = files disk q)
              \<and> files (snd x) = files disk"
    by blast
  from tr d have "length (writes (snd x)) = length ws + 1 + length ws" by simp
  with t have "length ws = 1" by simp
  then obtain y where ws: "ws = [y]" by (cases ws) simp_all
  with tr t d have y: "y = (''/a'', [0x79])" by simp
  from re have "files (snd x) ''/a'' = files disk ''/a''"
    by (simp add: ws y d run_def)
  with f t show ?thesis unfolding x_def by simp
qed

text \<open>
  Claim C2, as amended. What the transaction returns does not depend on the outcome of any
  write made after a failed write: if the write number \<open>k\<close> fails, a run in which the writes
  up to \<open>k\<close> have the same outcomes returns the same value, whatever the later writes (the
  rollback writes) do. After a write failure the error is the write error of the triggering
  file in both cases.
\<close>

theorem rollback_failures_not_reported:
  assumes "writeFails rt k" and "length (writes w) \<le> k" and "\<forall>i \<le> k. g i = writeFails rt i"
  shows "fst (applyWorkspaceEdit (rt\<lparr>writeFails := g\<rparr>) e w) = fst (applyWorkspaceEdit rt e w)"
proof (cases "readAndCompute rt w (mergeChanges rt e) (rangeMerged rt) []")
  case (Inl err)
  then show ?thesis by (simp add: applyWorkspaceEdit_def)
next
  case (Inr work)
  from assms(3) have "\<forall>i \<le> k. writeFails (rt\<lparr>writeFails := g\<rparr>) i = writeFails rt i" by simp
  from writeAll_result_independent[OF this assms(1) assms(2) refl]
  have eq: "fst (writeAll (rt\<lparr>writeFails := g\<rparr>) work [] w) = fst (writeAll rt work [] w)" .
  obtain r v where a: "writeAll rt work [] w = (r, v)" by (cases "writeAll rt work [] w")
  obtain r2 v2 where b: "writeAll (rt\<lparr>writeFails := g\<rparr>) work [] w = (r2, v2)"
    by (cases "writeAll (rt\<lparr>writeFails := g\<rparr>) work [] w")
  from eq a b have "r2 = r" by simp
  with Inr a b show ?thesis by (cases r) (simp_all add: applyWorkspaceEdit_def)
qed

theorem rollback_failures_not_reported_witness:
  "fst (applyWorkspaceEdit ((run az (\<lambda>n. n = 1))\<lparr>writeFails := (\<lambda>n. 1 \<le> n)\<rparr>) two_files disk)
     = fst (applyWorkspaceEdit (run az (\<lambda>n. n = 1)) two_files disk)
   \<and> failure (applyWorkspaceEdit ((run az (\<lambda>n. n = 1))\<lparr>writeFails := (\<lambda>n. 1 \<le> n)\<rparr>)
        two_files disk) = Some (WriteError ''/z'')"
proof -
  have a: "writeFails (run az (\<lambda>n. n = 1)) 1" by (simp add: run_def)
  have b: "length (writes disk) \<le> 1" by (simp add: disk_def)
  have c: "\<forall>i \<le> 1. (1 \<le> i) = writeFails (run az (\<lambda>n. n = 1)) i"
    by (auto simp add: run_def)
  have f: "failure (applyWorkspaceEdit (run az (\<lambda>n. n = 1)) two_files disk)
      = Some (WriteError ''/z'')" by code_simp
  from rollback_failures_not_reported[OF a b c, of two_files] f show ?thesis
    by (simp add: failure_def)
qed

text \<open>
  The claim as stated (a failed rollback write gives a distinct error naming the files not
  restored) fails: with the writes number 1 and 2 failing, the write of \<^verbatim>\<open>/z\<close> fails,
  the rollback write of \<^verbatim>\<open>/a\<close> fails and \<^verbatim>\<open>/a\<close> keeps its new content, and the
  error returned is the one returned when the rollback write succeeds.
\<close>

theorem rollback_failure_swallowed:
  "failure (applyWorkspaceEdit (run az (\<lambda>n. 1 \<le> n)) two_files disk) = Some (WriteError ''/z'')
   \<and> failure (applyWorkspaceEdit (run az (\<lambda>n. n = 1)) two_files disk) = Some (WriteError ''/z'')
   \<and> writes (snd (applyWorkspaceEdit (run az (\<lambda>n. 1 \<le> n)) two_files disk))
       = [(''/a'', [0x79]), (''/z'', [0x79, 0x78]), (''/a'', [0x78])]
   \<and> writeFails (run az (\<lambda>n. 1 \<le> n)) 2
   \<and> files (snd (applyWorkspaceEdit (run az (\<lambda>n. 1 \<le> n)) two_files disk)) ''/a'' = Some [0x79]
   \<and> files disk ''/a'' = Some [0x78]"
proof -
  have "failure (applyWorkspaceEdit (run az (\<lambda>n. 1 \<le> n)) two_files disk)
      = Some (WriteError ''/z'')" by code_simp
  moreover have "failure (applyWorkspaceEdit (run az (\<lambda>n. n = 1)) two_files disk)
      = Some (WriteError ''/z'')" by code_simp
  moreover have "writes (snd (applyWorkspaceEdit (run az (\<lambda>n. 1 \<le> n)) two_files disk))
       = [(''/a'', [0x79]), (''/z'', [0x79, 0x78]), (''/a'', [0x78])]" by code_simp
  moreover have "writeFails (run az (\<lambda>n. 1 \<le> n)) 2" by (simp add: run_def)
  moreover have "files (snd (applyWorkspaceEdit (run az (\<lambda>n. 1 \<le> n)) two_files disk)) ''/a''
      = Some [0x79]" by code_simp
  moreover have "files disk ''/a'' = Some [0x78]" by (simp add: disk_def)
  ultimately show ?thesis by blast
qed

text \<open>
  Claim C3 (no write before the write phase). If the transaction fails with a read error or
  with an error of the edit applier, the file system is as before the transaction: no
  content has changed and no write has been made. Only a write error can leave it changed.
\<close>

theorem no_write_before_write_phase:
  assumes "applyWorkspaceEdit rt e w = (Inl err, w')"
    and "(\<exists>p. err = ReadError p) \<or> (\<exists>p ee. err = ApplyError p ee)"
  shows "w' = w"
proof -
  from applyWorkspaceEdit_cases[of rt w e] assms(1)
  consider (early) "applyWorkspaceEdit rt e w = (Inl err, w)"
    | (late) work where "writeAll rt work [] w = (Some err, w')"
    by auto
  then show ?thesis
  proof cases
    case early
    with assms(1) show ?thesis by simp
  next
    case late
    from writeAll_failure[OF late, of "files w"] obtain p where "err = WriteError p" by blast
    with assms(2) show ?thesis by auto
  qed
qed

theorem no_write_before_write_phase_witness:
  "failure (applyWorkspaceEdit (run az (\<lambda>n. False)) two_files disk_without_z)
     = Some (ReadError ''/z'')
   \<and> snd (applyWorkspaceEdit (run az (\<lambda>n. False)) two_files disk_without_z) = disk_without_z"
proof -
  define x where "x = applyWorkspaceEdit (run az (\<lambda>n. False)) two_files disk_without_z"
  have f: "failure x = Some (ReadError ''/z'')" unfolding x_def by code_simp
  then have "applyWorkspaceEdit (run az (\<lambda>n. False)) two_files disk_without_z
      = (Inl (ReadError ''/z''), snd x)"
    by (simp add: failure_eq x_def prod_eq_iff)
  from no_write_before_write_phase[OF this] have "snd x = disk_without_z" by blast
  with f show ?thesis unfolding x_def by simp
qed

text \<open>
  Claim C4 (order independence), as amended. For every content and every list of pairwise
  non-overlapping edits whose start positions are pairwise distinct, every permutation of
  the list gives the same result (the same bytes, or the same error).
\<close>

theorem applyFileEdits_order_independent:
  assumes "non_overlapping es" and "distinct (map start_key es)" and "mset es' = mset es"
  shows "applyFileEdits content es' = applyFileEdits content es"
  using sort_Slice_permutation[OF assms(3) assms(2)] by (simp add: applyFileEdits_def)

theorem applyFileEdits_order_independent_witness:
  "applyFileEdits [0x78, 0x78, 0x78] [replace_third_char, replace_first_char]
     = applyFileEdits [0x78, 0x78, 0x78] [replace_first_char, replace_third_char]
   \<and> applyFileEdits [0x78, 0x78, 0x78] [replace_first_char, replace_third_char]
     = Inr [0x79, 0x78, 0x7A]"
proof -
  have a: "non_overlapping [replace_first_char, replace_third_char]" by code_simp
  have b: "distinct (map start_key [replace_first_char, replace_third_char])" by code_simp
  have c: "mset [replace_third_char, replace_first_char]
      = mset [replace_first_char, replace_third_char]" by (simp add: add.commute)
  have d: "applyFileEdits [0x78, 0x78, 0x78] [replace_first_char, replace_third_char]
     = Inr [0x79, 0x78, 0x7A]" by code_simp
  from applyFileEdits_order_independent[OF a b c, of "[0x78, 0x78, 0x78]"] d show ?thesis
    by simp
qed

text \<open>
  Without distinct start positions the claim fails: two insertions at the same position
  do not overlap, they compare as equal in the sort, and they are applied in the order in
  which they were supplied.
\<close>

theorem same_position_inserts_order_dependent:
  "non_overlapping [insert_A_at_start, insert_B_at_start]
   \<and> mset [insert_B_at_start, insert_A_at_start] = mset [insert_A_at_start, insert_B_at_start]
   \<and> applyFileEdits [0x78] [insert_A_at_start, insert_B_at_start] = Inr [0x42, 0x41, 0x78]
   \<and> applyFileEdits [0x78] [insert_B_at_start, insert_A_at_start] = Inr [0x41, 0x42, 0x78]"
proof -
  have "non_overlapping [insert_A_at_start, insert_B_at_start]" by code_simp
  moreover have "mset [insert_B_at_start, insert_A_at_start]
      = mset [insert_A_at_start, insert_B_at_start]" by (simp add: add.commute)
  moreover have "applyFileEdits [0x78] [insert_A_at_start, insert_B_at_start]
      = Inr [0x42, 0x41, 0x78]" by code_simp
  moreover have "applyFileEdits [0x78] [insert_B_at_start, insert_A_at_start]
      = Inr [0x41, 0x42, 0x78]" by code_simp
  ultimately show ?thesis by simp
qed

text \<open>
  Claim C5 (round trip), as amended. Converting a UTF-16 column \<open>c\<close> to a byte offset and
  counting the UTF-16 code units of the byte prefix of that length gives \<open>c\<close> back whenever
  \<open>c\<close> is the column of a rune boundary of the line. When \<open>c\<close> falls between the two code
  units of a surrogate pair, the prefix contains the whole character and the count is
  \<open>c + 1\<close> (for every column below the largest \<^verbatim>\<open>uint32\<close> value).
\<close>

theorem utf16_round_trip_on_boundaries:
  "(unat c \<in> set (utf16_columns line) \<longrightarrow>
      utf16_length (take (utf16ColToByteOffset line c) line) = unat c)
   \<and> (\<forall>k. k < length (runes line) \<and> 0xFFFF < fst (runes line ! k)
            \<and> unat c = utf16_columns line ! k + 1 \<and> unat c < 2 ^ 32 - 1
          \<longrightarrow> utf16_length (take (utf16ColToByteOffset line c) line) = unat c + 1)"
proof (intro conjI allI impI)
  assume "unat c \<in> set (utf16_columns line)"
  then obtain k where k: "k \<le> length (runes line)"
    and col: "unat c = sum_list (map (\<lambda>a. utf16_units (fst a)) (take k (runes line)))"
    unfolding utf16_columns_def set_prefix_sums by (auto simp add: take_map)
  from col have "unat c = unat (0 :: 32 word)
      + sum_list (map (\<lambda>a. utf16_units (fst a)) (take k (runes line)))" by simp
  from walk_exact[OF k this]
  have "utf16ColToByteOffset line c = sum_list (map snd (take k (runes line)))"
    by (simp add: utf16ColToByteOffset_walk)
  with runes_take[OF k] col
  show "utf16_length (take (utf16ColToByteOffset line c) line) = unat c"
    by (simp add: utf16_length_def)
next
  fix k
  assume a: "k < length (runes line) \<and> 0xFFFF < fst (runes line ! k)
            \<and> unat c = utf16_columns line ! k + 1 \<and> unat c < 2 ^ 32 - 1"
  then have k: "k < length (runes line)" and big: "0xFFFF < fst (runes line ! k)"
    and nowrap: "unat c < 2 ^ 32 - 1" by simp_all
  from a have col: "unat c = unat (0 :: 32 word)
      + sum_list (map (\<lambda>a. utf16_units (fst a)) (take k (runes line))) + 1"
    by (simp add: utf16_columns_def prefix_sums_nth take_map)
  have w: "utf16ColToByteOffset line c = sum_list (map snd (take (Suc k) (runes line)))"
    unfolding utf16ColToByteOffset_walk by (rule walk_surrogate[OF k big col nowrap])
  from k have k': "Suc k \<le> length (runes line)" by simp
  from big have "utf16_units (fst (runes line ! k)) = 2"
    by (auto simp add: utf16_units_def)
  with runes_take[OF k'] col k
  show "utf16_length (take (utf16ColToByteOffset line c) line) = unat c + 1"
    by (simp add: w utf16_length_def take_Suc_conv_app_nth)
qed

theorem utf16_round_trip_on_boundaries_witness:
  "unat (3 :: 32 word) \<in> set (utf16_columns [0x61, 0xF0, 0x9F, 0x91, 0x80, 0x62])
   \<and> utf16_length (take (utf16ColToByteOffset [0x61, 0xF0, 0x9F, 0x91, 0x80, 0x62] 3)
        [0x61, 0xF0, 0x9F, 0x91, 0x80, 0x62]) = 3"
proof -
  let ?l = "[0x61, 0xF0, 0x9F, 0x91, 0x80, 0x62] :: bytes"
  have c: "utf16_columns ?l = [0, 1, 3, 4]" by code_simp
  have h: "unat (3 :: 32 word) \<in> set (utf16_columns ?l)" by (simp add: c)
  with utf16_round_trip_on_boundaries[of 3 ?l] show ?thesis by simp
qed

text \<open>
  The round trip as stated for every column up to the UTF-16 length fails on the line
  \<^verbatim>\<open>a\<close>, U+1F440, \<^verbatim>\<open>b\<close> at column 2: the offset is 5 and the prefix counts 3 code units.
\<close>

theorem utf16_round_trip_counterexample:
  "unat (2 :: 32 word) \<le> utf16_length [0x61, 0xF0, 0x9F, 0x91, 0x80, 0x62]
   \<and> utf16ColToByteOffset [0x61, 0xF0, 0x9F, 0x91, 0x80, 0x62] 2 = 5
   \<and> utf16_length (take (utf16ColToByteOffset [0x61, 0xF0, 0x9F, 0x91, 0x80, 0x62] 2)
        [0x61, 0xF0, 0x9F, 0x91, 0x80, 0x62]) = 3
   \<and> utf16_length (take (utf16ColToByteOffset [0x61, 0xF0, 0x9F, 0x91, 0x80, 0x62] 2)
        [0x61, 0xF0, 0x9F, 0x91, 0x80, 0x62]) \<noteq> unat (2 :: 32 word)"
proof -
  have a: "unat (2 :: 32 word) \<le> utf16_length [0x61, 0xF0, 0x9F, 0x91, 0x80, 0x62]"
    by code_simp
  have b: "utf16ColToByteOffset [0x61, 0xF0, 0x9F, 0x91, 0x80, 0x62] 2 = 5"
    by code_simp
  have c: "utf16_length (take (utf16ColToByteOffset [0x61, 0xF0, 0x9F, 0x91, 0x80, 0x62] 2)
        [0x61, 0xF0, 0x9F, 0x91, 0x80, 0x62]) = 3"
    by code_simp
  from a b c show ?thesis by simp
qed

text \<open>
  Claim C6 (failures of the edit applier). Let the edits be taken in sorted order, the
  current content before an edit being the content with the edits before it spliced.
  \<^verbatim>\<open>applyFileEdits\<close> fails with the out-of-bounds error exactly when the first edit that
  does not apply has a start line or an end line that is at least the number of lines of
  the current content; it fails with the offsets error exactly when that edit has both
  lines in range and a byte span that violates \<open>0 \<le> start \<le> end \<le> length\<close> of the current
  content; otherwise it returns the content with all edits spliced.
\<close>

theorem applyFileEdits_failure_cases:
  "(is_OutOfBounds (applyFileEdits content input) \<longleftrightarrow>
      (\<exists>k < length (sort_Slice editLess input).
         (\<forall>j < k. edit_applies content (sort_Slice editLess input) j)
         \<and> line_out_of_range (current_content content (sort_Slice editLess input) k)
             (sort_Slice editLess input ! k)))
   \<and> (is_OffsetsOutOfRange (applyFileEdits content input) \<longleftrightarrow>
      (\<exists>k < length (sort_Slice editLess input).
         (\<forall>j < k. edit_applies content (sort_Slice editLess input) j)
         \<and> \<not> line_out_of_range (current_content content (sort_Slice editLess input) k)
             (sort_Slice editLess input ! k)
         \<and> \<not> span_valid (current_content content (sort_Slice editLess input) k)
             (sort_Slice editLess input ! k)))
   \<and> (\<not> is_OutOfBounds (applyFileEdits content input)
        \<and> \<not> is_OffsetsOutOfRange (applyFileEdits content input) \<longrightarrow>
      applyFileEdits content input
        = Inr (current_content content (sort_Slice editLess input)
                 (length (sort_Slice editLess input))))"
proof -
  define es where "es = sort_Slice editLess input"
  define r where "r = applyFileEdits content input"
  have r: "r = applyFileEdits_loop es content (splitLines content)"
    by (simp add: r_def es_def applyFileEdits_def)
  have "(is_OutOfBounds r \<longleftrightarrow>
      (\<exists>k < length es. (\<forall>j < k. edit_applies content es j)
         \<and> line_out_of_range (current_content content es k) (es ! k)))
   \<and> (is_OffsetsOutOfRange r \<longleftrightarrow>
      (\<exists>k < length es. (\<forall>j < k. edit_applies content es j)
         \<and> \<not> line_out_of_range (current_content content es k) (es ! k)
         \<and> \<not> span_valid (current_content content es k) (es ! k)))
   \<and> (\<not> is_OutOfBounds r \<and> \<not> is_OffsetsOutOfRange r \<longrightarrow>
      r = Inr (current_content content es (length es)))"
  proof (cases "\<forall>k < length es. edit_applies content es k")
    case True
    from loop_all_apply[OF True] have res: "r = Inr (current_content content es (length es))"
      by (simp add: r)
    from True have "\<not> (\<exists>k < length es. (\<forall>j < k. edit_applies content es j)
         \<and> line_out_of_range (current_content content es k) (es ! k))"
      by (auto simp add: edit_applies_def)
    moreover from True have "\<not> (\<exists>k < length es. (\<forall>j < k. edit_applies content es j)
         \<and> \<not> line_out_of_range (current_content content es k) (es ! k)
         \<and> \<not> span_valid (current_content content es k) (es ! k))"
      by (auto simp add: edit_applies_def)
    ultimately show ?thesis
      by (simp add: res is_OutOfBounds_def is_OffsetsOutOfRange_def)
  next
    case False
    then obtain k where k: "k < length es" and before: "\<forall>j < k. edit_applies content es j"
      and fails: "\<not> edit_applies content es k"
      by (rule first_failure_exists)
    note res = loop_first_failure[OF k before fails, folded r]
    have only: "k' = k" if "\<forall>j < k'. edit_applies content es j" "\<not> edit_applies content es k'"
      for k'
      using before fails that by (rule first_failure_unique)
    have oob: "(\<exists>k' < length es. (\<forall>j < k'. edit_applies content es j)
         \<and> line_out_of_range (current_content content es k') (es ! k'))
       \<longleftrightarrow> line_out_of_range (current_content content es k) (es ! k)"
    proof
      assume "\<exists>k' < length es. (\<forall>j < k'. edit_applies content es j)
         \<and> line_out_of_range (current_content content es k') (es ! k')"
      then obtain k' where b: "\<forall>j < k'. edit_applies content es j"
        and l: "line_out_of_range (current_content content es k') (es ! k')" by blast
      from l have "\<not> edit_applies content es k'" by (simp add: edit_applies_def)
      from only[OF b this] l show "line_out_of_range (current_content content es k) (es ! k)"
        by simp
    next
      assume "line_out_of_range (current_content content es k) (es ! k)"
      with k before show "\<exists>k' < length es. (\<forall>j < k'. edit_applies content es j)
         \<and> line_out_of_range (current_content content es k') (es ! k')" by blast
    qed
    have inv: "(\<exists>k' < length es. (\<forall>j < k'. edit_applies content es j)
         \<and> \<not> line_out_of_range (current_content content es k') (es ! k')
         \<and> \<not> span_valid (current_content content es k') (es ! k'))
       \<longleftrightarrow> \<not> line_out_of_range (current_content content es k) (es ! k)"
    proof
      assume "\<exists>k' < length es. (\<forall>j < k'. edit_applies content es j)
         \<and> \<not> line_out_of_range (current_content content es k') (es ! k')
         \<and> \<not> span_valid (current_content content es k') (es ! k')"
      then obtain k' where b: "\<forall>j < k'. edit_applies content es j"
        and l: "\<not> line_out_of_range (current_content content es k') (es ! k')"
        and v: "\<not> span_valid (current_content content es k') (es ! k')" by blast
      from v have "\<not> edit_applies content es k'" by (simp add: edit_applies_def)
      from only[OF b this] l show "\<not> line_out_of_range (current_content content es k) (es ! k)"
        by simp
    next
      assume l: "\<not> line_out_of_range (current_content content es k) (es ! k)"
      with fails have "\<not> span_valid (current_content content es k) (es ! k)"
        by (simp add: edit_applies_def)
      with l k before show "\<exists>k' < length es. (\<forall>j < k'. edit_applies content es j)
         \<and> \<not> line_out_of_range (current_content content es k') (es ! k')
         \<and> \<not> span_valid (current_content content es k') (es ! k')" by blast
    qed
    show ?thesis
      unfolding oob inv
      by (simp add: res is_OutOfBounds_def is_OffsetsOutOfRange_def)
  qed
  then show ?thesis unfolding es_def r_def .
qed

theorem applyFileEdits_failure_cases_witness:
  "is_OutOfBounds (applyFileEdits [0x78] [edit_past_end])"
proof -
  have s: "sort_Slice editLess [edit_past_end] = [edit_past_end]"
    by (simp add: sort_Slice_def)
  have "line_out_of_range (current_content [0x78] [edit_past_end] 0) edit_past_end"
    by code_simp
  then have "\<exists>k < length [edit_past_end].
         (\<forall>j < k. edit_applies [0x78] [edit_past_end] j)
         \<and> line_out_of_range (current_content [0x78] [edit_past_end] k) ([edit_past_end] ! k)"
    by simp
  with applyFileEdits_failure_cases[of "[0x78]" "[edit_past_end]"] show ?thesis
    unfolding s by blast
qed

text \<open>
  Claim C7 (clamp). For every line and every UTF-16 column \<open>c\<close> strictly greater than the
  UTF-16 length of the line, \<^verbatim>\<open>utf16ColToByteOffset\<close> returns the byte length of the
  line. It returns 0 for the empty line, whatever the column, and for column 0, whatever
  the line.
\<close>

theorem utf16ColToByteOffset_clamp:
  "(utf16_length line < unat c \<longrightarrow> utf16ColToByteOffset line c = length line)
   \<and> utf16ColToByteOffset [] c = 0
   \<and> utf16ColToByteOffset line 0 = 0"
proof (intro conjI impI)
  assume "utf16_length line < unat c"
  then have "walk (runes line) c 0 = sum_list (map snd (runes line))"
    by (intro walk_clamp) (simp add: utf16_length_def)
  then show "utf16ColToByteOffset line c = length line"
    by (simp add: utf16ColToByteOffset_walk sum_sizes_runes)
next
  show "utf16ColToByteOffset [] c = 0"
    by (simp add: utf16ColToByteOffset_walk)
next
  show "utf16ColToByteOffset line 0 = 0"
    by (simp add: utf16ColToByteOffset_walk walk_stop)
qed

theorem utf16ColToByteOffset_clamp_witness:
  "utf16_length [0xE4, 0xB8, 0xAD] < unat (100 :: 32 word)
   \<and> utf16ColToByteOffset [0xE4, 0xB8, 0xAD] 100 = 3"
proof -
  have h: "utf16_length [0xE4, 0xB8, 0xAD] < unat (100 :: 32 word)"
    by code_simp
  from utf16ColToByteOffset_clamp[of "[0xE4, 0xB8, 0xAD]" 100] h show ?thesis
    by simp
qed

text \<open>
  Claim C8 (deterministic write order) does not hold of the code: the files are written in
  the order in which the Go runtime iterates over the map \<^verbatim>\<open>merged\<close>. On the same
  workspace edit and the same files, the two iteration orders of a map with two keys give
  different sequences of writes and, when the second write fails, different errors.
\<close>

theorem write_order_follows_map_iteration:
  "map_iteration az (mergeChanges (run az (\<lambda>n. n = 1)) two_files)
   \<and> map_iteration za (mergeChanges (run za (\<lambda>n. n = 1)) two_files)
   \<and> map fst (writes (snd (applyWorkspaceEdit (run az (\<lambda>n. n = 1)) two_files disk)))
       = [''/a'', ''/z'', ''/a'']
   \<and> map fst (writes (snd (applyWorkspaceEdit (run za (\<lambda>n. n = 1)) two_files disk)))
       = [''/z'', ''/a'', ''/z'']
   \<and> failure (applyWorkspaceEdit (run az (\<lambda>n. n = 1)) two_files disk) = Some (WriteError ''/z'')
   \<and> failure (applyWorkspaceEdit (run za (\<lambda>n. n = 1)) two_files disk) = Some (WriteError ''/a'')"
proof -
  have "map_iteration az (mergeChanges (run az (\<lambda>n. n = 1)) two_files)"
    by (auto simp add: map_iteration_def az_def mergeChanges_def run_def two_files_def
        merge_entry_def lookup_def)
  moreover have "map_iteration za (mergeChanges (run za (\<lambda>n. n = 1)) two_files)"
    by (auto simp add: map_iteration_def za_def mergeChanges_def run_def two_files_def
        merge_entry_def lookup_def)
  moreover have "map fst (writes (snd (applyWorkspaceEdit (run az (\<lambda>n. n = 1)) two_files disk)))
       = [''/a'', ''/z'', ''/a'']" by code_simp
  moreover have "map fst (writes (snd (applyWorkspaceEdit (run za (\<lambda>n. n = 1)) two_files disk)))
       = [''/z'', ''/a'', ''/z'']" by code_simp
  moreover have "failure (applyWorkspaceEdit (run az (\<lambda>n. n = 1)) two_files disk)
      = Some (WriteError ''/z'')" by code_simp
  moreover have "failure (applyWorkspaceEdit (run za (\<lambda>n. n = 1)) two_files disk)
      = Some (WriteError ''/a'')" by code_simp
  ultimately show ?thesis by simp
qed

text \<open>
  Claim C9 (normalisation), as amended. The two representations are merged into one edit
  list per document URI: the entry of \<^verbatim>\<open>Changes\<close> followed by the entries of
  \<^verbatim>\<open>DocumentChanges\<close> for that URI, in list order. No URI of the merged map is
  discarded, whether its list is empty or not: when the transaction succeeds, the files
  written are the files of the merged URIs in iteration order, every one of them was read,
  the result lists each with the length of its edit list, and a file whose edit list is
  empty is written with the content it had.
\<close>

theorem empty_edit_lists_are_processed:
  assumes "map_iteration (rangeChanges rt) (Changes e)"
    and "map_iteration (rangeMerged rt) (mergeChanges rt e)"
  shows "(\<forall>u. mergeChanges rt e u =
       (if u \<in> dom (Changes e) \<union> document_uris e
        then Some (lookup (Changes e) u @ document_edits e u) else None))
    \<and> (applyWorkspaceEdit rt e w = (Inr res, w') \<longrightarrow>
       map fst (drop (length (writes w)) (writes w')) = map (URIToFile rt) (rangeMerged rt)
       \<and> dom res = URIToFile rt ` dom (mergeChanges rt e)
       \<and> (\<forall>u \<in> dom (mergeChanges rt e).
            files w (URIToFile rt u) \<noteq> None
            \<and> (\<exists>i \<in> set (lookup res (URIToFile rt u)).
                 File i = URIToFile rt u \<and> Edits' i = length (lookup (mergeChanges rt e) u))
            \<and> (mergeChanges rt e u = Some [] \<longrightarrow>
                 (URIToFile rt u, the (files w (URIToFile rt u)))
                   \<in> set (drop (length (writes w)) (writes w')))))"
proof (intro conjI allI impI)
  fix u
  show "mergeChanges rt e u =
       (if u \<in> dom (Changes e) \<union> document_uris e
        then Some (lookup (Changes e) u @ document_edits e u) else None)"
    by (rule mergeChanges_eq[OF assms(1)])
next
  assume ok: "applyWorkspaceEdit rt e w = (Inr res, w')"
  from applyWorkspaceEdit_cases[of rt w e] ok
  obtain work where rd: "readAndCompute rt w (mergeChanges rt e) (rangeMerged rt) [] = Inr work"
    and wr: "writeAll rt work [] w = (None, w')"
    and res: "res = buildResult rt work Map.empty"
    by auto
  from readAndCompute_work[OF rd]
  have paths: "map path work = map (URIToFile rt) (rangeMerged rt)"
    and eds: "map edits work = map (lookup (mergeChanges rt e)) (rangeMerged rt)"
    and orig: "\<forall>wk \<in> set work. files w (path wk) = Some (original wk)
                \<and> applyFileEdits (original wk) (edits wk) = Inr (updated wk)"
    by simp_all
  from assms(2) have keys: "set (rangeMerged rt) = dom (mergeChanges rt e)"
    by (simp add: map_iteration_def)
  note tr = writeAll_success[OF wr]
  from tr paths
  show "map fst (drop (length (writes w)) (writes w')) = map (URIToFile rt) (rangeMerged rt)"
    by (simp add: comp_def)
  have "path ` set work = set (map path work)" by simp
  then show "dom res = URIToFile rt ` dom (mergeChanges rt e)"
    by (simp only: res buildResult_dom paths keys[symmetric]) simp
  show "\<forall>u \<in> dom (mergeChanges rt e).
            files w (URIToFile rt u) \<noteq> None
            \<and> (\<exists>i \<in> set (lookup res (URIToFile rt u)).
                 File i = URIToFile rt u \<and> Edits' i = length (lookup (mergeChanges rt e) u))
            \<and> (mergeChanges rt e u = Some [] \<longrightarrow>
                 (URIToFile rt u, the (files w (URIToFile rt u)))
                   \<in> set (drop (length (writes w)) (writes w')))"
  proof
    fix u
    assume "u \<in> dom (mergeChanges rt e)"
    with keys obtain n where n: "n < length (rangeMerged rt)" and u: "rangeMerged rt ! n = u"
      by (metis in_set_conv_nth)
    from paths have lw: "length work = length (rangeMerged rt)" by (metis length_map)
    with n have nw: "n < length work" by simp
    from paths nw n u have pn: "path (work ! n) = URIToFile rt u"
      by (metis nth_map)
    from eds nw n u have en: "edits (work ! n) = lookup (mergeChanges rt e) u"
      by (metis nth_map)
    from nw have mem: "work ! n \<in> set work" by simp
    from orig mem pn have rdn: "files w (URIToFile rt u) = Some (original (work ! n))" by auto
    have entry: "\<exists>i \<in> set (lookup res (URIToFile rt u)).
            File i = URIToFile rt u \<and> Edits' i = length (lookup (mergeChanges rt e) u)"
      using buildResult_entry[OF mem, of rt Map.empty] pn en
      unfolding res by (intro bexI[where x = "\<lparr>File = path (work ! n), Edits' = length (edits (work ! n)),
          Preview = preview_of rt (work ! n)\<rparr>"]) simp_all
    have same: "(URIToFile rt u, the (files w (URIToFile rt u)))
                   \<in> set (drop (length (writes w)) (writes w'))"
      if "mergeChanges rt e u = Some []"
    proof -
      from that en have "edits (work ! n) = []" by (simp add: lookup_def)
      with orig mem have "updated (work ! n) = original (work ! n)"
        by (auto simp add: applyFileEdits_no_edits)
      with pn rdn have "(URIToFile rt u, the (files w (URIToFile rt u)))
          = (\<lambda>wk. (path wk, updated wk)) (work ! n)" by simp
      also have "\<dots> \<in> set (map (\<lambda>wk. (path wk, updated wk)) work)"
        using mem by (simp only: set_map image_eqI)
      finally show ?thesis by (simp add: tr)
    qed
    from rdn entry same
    show "files w (URIToFile rt u) \<noteq> None
            \<and> (\<exists>i \<in> set (lookup res (URIToFile rt u)).
                 File i = URIToFile rt u \<and> Edits' i = length (lookup (mergeChanges rt e) u))
            \<and> (mergeChanges rt e u = Some [] \<longrightarrow>
                 (URIToFile rt u, the (files w (URIToFile rt u)))
                   \<in> set (drop (length (writes w)) (writes w')))"
      by simp
  qed
qed

theorem empty_edit_lists_are_processed_witness:
  "mergeChanges (run [''file:///a''] (\<lambda>n. False)) one_empty_list ''file:///a'' = Some []
   \<and> map fst (writes (snd (applyWorkspaceEdit (run [''file:///a''] (\<lambda>n. False)) one_empty_list disk)))
       = [''/a'']
   \<and> (''/a'', [0x78])
       \<in> set (writes (snd (applyWorkspaceEdit (run [''file:///a''] (\<lambda>n. False)) one_empty_list disk)))"
proof -
  define rt where "rt = run [''file:///a''] (\<lambda>n. False)"
  define x where "x = applyWorkspaceEdit rt one_empty_list disk"
  have a: "map_iteration (rangeChanges rt) (Changes one_empty_list)"
    by (auto simp add: rt_def map_iteration_def run_def one_empty_list_def)
  have m: "mergeChanges rt one_empty_list ''file:///a'' = Some []"
    unfolding rt_def by code_simp
  have b: "map_iteration (rangeMerged rt) (mergeChanges rt one_empty_list)"
    by (auto simp add: rt_def map_iteration_def mergeChanges_def run_def one_empty_list_def
        merge_entry_def lookup_def)
  have "failure x = None" unfolding x_def rt_def by code_simp
  then obtain res where "fst x = Inr res"
    by (cases "fst x") (simp_all add: failure_def)
  then have ok: "applyWorkspaceEdit rt one_empty_list disk = (Inr res, snd x)"
    by (simp add: x_def prod_eq_iff)
  have d: "writes disk = []" "files disk ''/a'' = Some [0x78]" "URIToFile rt ''file:///a'' = ''/a''"
    "rangeMerged rt = [''file:///a'']"
    by (simp_all add: disk_def rt_def run_def)
  from m have dm: "''file:///a'' \<in> dom (mergeChanges rt one_empty_list)" by auto
  from empty_edit_lists_are_processed[OF a b, of disk res "snd x"] ok
  have "map fst (drop (length (writes disk)) (writes (snd x))) = map (URIToFile rt) (rangeMerged rt)"
    and "\<forall>u \<in> dom (mergeChanges rt one_empty_list).
           mergeChanges rt one_empty_list u = Some [] \<longrightarrow>
             (URIToFile rt u, the (files disk (URIToFile rt u)))
               \<in> set (drop (length (writes disk)) (writes (snd x)))"
    by blast+
  with m dm d show ?thesis unfolding x_def rt_def by auto
qed

text \<open>
  The claim as stated (a file with an empty edit list is neither read nor written nor
  reported) fails on a workspace edit whose only entry is an empty list: the file is
  written with its own content and reported with 0 edits, and when the file cannot be read
  the transaction fails with a read error.
\<close>

theorem empty_edit_list_not_discarded:
  "mergeChanges (run [''file:///a''] (\<lambda>n. False)) one_empty_list ''file:///a'' = Some []
   \<and> writes (snd (applyWorkspaceEdit (run [''file:///a''] (\<lambda>n. False)) one_empty_list disk))
       = [(''/a'', [0x78])]
   \<and> result_counts (applyWorkspaceEdit (run [''file:///a''] (\<lambda>n. False)) one_empty_list disk) ''/a''
       = Some [0]
   \<and> failure (applyWorkspaceEdit (run [''file:///a''] (\<lambda>n. False)) one_empty_list empty_disk)
       = Some (ReadError ''/a'')"
proof -
  have "mergeChanges (run [''file:///a''] (\<lambda>n. False)) one_empty_list ''file:///a'' = Some []"
    by code_simp
  moreover have "writes (snd (applyWorkspaceEdit (run [''file:///a''] (\<lambda>n. False))
      one_empty_list disk)) = [(''/a'', [0x78])]" by code_simp
  moreover have "result_counts (applyWorkspaceEdit (run [''file:///a''] (\<lambda>n. False))
      one_empty_list disk) ''/a'' = Some [0]" by code_simp
  moreover have "failure (applyWorkspaceEdit (run [''file:///a''] (\<lambda>n. False))
      one_empty_list empty_disk) = Some (ReadError ''/a'')" by code_simp
  ultimately show ?thesis by blast
qed

text \<open>
  Claim C10 (boundaries). For every line and every UTF-16 column, the returned byte offset
  is at most the byte length of the line and is one of the rune boundaries of the line.
  When the column falls between the two code units of a surrogate pair (the \<open>k\<close>-th
  character is above U+FFFF and the column is one more than the column at which it starts),
  the offset is the boundary after that character, four bytes after its start. The
  column is a \<^verbatim>\<open>uint32\<close>: the last clause excludes its largest value, at which the
  counter would wrap (on a line of at least \<open>2 ^ 32 - 2\<close> code units).
\<close>

theorem utf16ColToByteOffset_rune_boundary:
  "utf16ColToByteOffset line c \<le> length line
   \<and> utf16ColToByteOffset line c \<in> set (rune_boundaries line)
   \<and> (\<forall>k. k < length (runes line) \<and> 0xFFFF < fst (runes line ! k)
            \<and> unat c = utf16_columns line ! k + 1 \<and> unat c < 2 ^ 32 - 1
          \<longrightarrow> utf16ColToByteOffset line c = rune_boundaries line ! k + 4
              \<and> rune_boundaries line ! k + 4 = rune_boundaries line ! Suc k)"
proof (intro conjI)
  obtain k where k: "k \<le> length (runes line)"
    and w: "walk (runes line) c 0 = sum_list (map snd (take k (runes line)))"
    using walk_boundary[of "runes line" c 0] by blast
  have "sum_list (map snd (take k (runes line))) \<le> sum_list (map snd (runes line))"
    using sum_list_take_le[of k "map snd (runes line)"] by (simp add: take_map)
  then show "utf16ColToByteOffset line c \<le> length line"
    by (simp add: utf16ColToByteOffset_walk w sum_sizes_runes)
  show "utf16ColToByteOffset line c \<in> set (rune_boundaries line)"
    unfolding rune_boundaries_def set_prefix_sums utf16ColToByteOffset_walk w
    using k by (auto simp add: take_map)
next
  show "\<forall>k. k < length (runes line) \<and> 0xFFFF < fst (runes line ! k)
            \<and> unat c = utf16_columns line ! k + 1 \<and> unat c < 2 ^ 32 - 1
          \<longrightarrow> utf16ColToByteOffset line c = rune_boundaries line ! k + 4
              \<and> rune_boundaries line ! k + 4 = rune_boundaries line ! Suc k"
  proof (rule allI, rule impI)
  fix k
  assume a: "k < length (runes line) \<and> 0xFFFF < fst (runes line ! k)
            \<and> unat c = utf16_columns line ! k + 1 \<and> unat c < 2 ^ 32 - 1"
  then have k: "k < length (runes line)" and big: "0xFFFF < fst (runes line ! k)"
    and nowrap: "unat c < 2 ^ 32 - 1" by simp_all
  from a have col: "unat c = unat (0 :: 32 word)
      + sum_list (map (\<lambda>a. utf16_units (fst a)) (take k (runes line))) + 1"
    by (simp add: utf16_columns_def prefix_sums_nth take_map)
  have w: "walk (runes line) c 0 = sum_list (map snd (take (Suc k) (runes line)))"
    by (rule walk_surrogate[OF k big col nowrap])
  have four: "snd (runes line ! k) = 4"
    by (rule supplementary_size[OF k big])
  from k have "sum_list (map snd (take (Suc k) (runes line)))
      = sum_list (map snd (take k (runes line))) + snd (runes line ! k)"
    by (simp add: take_Suc_conv_app_nth)
  with k four w
  show "utf16ColToByteOffset line c = rune_boundaries line ! k + 4
              \<and> rune_boundaries line ! k + 4 = rune_boundaries line ! Suc k"
    by (simp add: utf16ColToByteOffset_walk rune_boundaries_def prefix_sums_nth take_map)
  qed
qed

theorem utf16ColToByteOffset_rune_boundary_witness:
  "utf16ColToByteOffset [0x61, 0xF0, 0x9F, 0x91, 0x80, 0x62] 2 = 5
   \<and> rune_boundaries [0x61, 0xF0, 0x9F, 0x91, 0x80, 0x62] = [0, 1, 5, 6]"
proof -
  let ?l = "[0x61, 0xF0, 0x9F, 0x91, 0x80, 0x62] :: bytes"
  have r: "runes ?l = [(0x61, 1), (0x1F440, 4), (0x62, 1)]" by code_simp
  have b: "rune_boundaries ?l = [0, 1, 5, 6]" by code_simp
  have c: "utf16_columns ?l = [0, 1, 3, 4]" by code_simp
  have "1 < length (runes ?l) \<and> 0xFFFF < fst (runes ?l ! 1)
      \<and> unat (2 :: 32 word) = utf16_columns ?l ! 1 + 1 \<and> unat (2 :: 32 word) < 2 ^ 32 - 1"
    by (simp add: r c)
  with utf16ColToByteOffset_rune_boundary[of ?l 2]
  have "utf16ColToByteOffset ?l 2 = rune_boundaries ?l ! 1 + 4" by blast
  then show ?thesis by (simp add: b)
qed

end
